theory Spec2Isabelle
  imports Complex_Main "HOL-Library.Word"
begin

unbundle bit_operations_syntax

section \<open>Conventions of the embedding\<close>


definition new_array :: "(nat \<Rightarrow> 'a) \<Rightarrow> nat \<Rightarrow> 'a list" where
  "new_array g n = map g [0..<n]"


section \<open>Mesh::NewTimeStep\<close>






section \<open>Mesh constructors: the partition planner\<close>

text \<open>
  Failures of the constructors as values. \<open>OutOfBounds\<close> stands for an access outside
  an allocated array (undefined behaviour in the source); \<open>TooFewBlocks\<close> is the
  \<^verbatim>\<open>runtime_error\<close> "Too few blocks" thrown by the restart constructor;
  \<open>NeighborSearchFailed\<close> is the \<^verbatim>\<open>runtime_error\<close> "the neighbor search failed" of the
  fresh-run constructor, and \<open>NullPointer\<close> a call through a null tree node.
\<close>

datatype mesh_error = OutOfBounds | TooFewBlocks | NeighborSearchFailed | NullPointer

text \<open>\<^verbatim>\<open>totalcost+=costlist[i]\<close> for \<open>i\<close> ascending (both constructors).\<close>

fun cost_loop :: "real list \<Rightarrow> real \<Rightarrow> real" where
  "cost_loop [] totalcost = totalcost"
| "cost_loop (c # rest) totalcost = cost_loop rest (totalcost + c)"


text \<open>
  \<^verbatim>\<open>for(i=nbtotal-1;i>=0;i--)\<close>, lines 289-300. The second argument is the number
  of iterations still to run; an iteration with \<open>Suc i\<close> to run works on index \<open>i\<close>.
\<close>

fun rank_loop ::
  "real list \<Rightarrow> nat \<Rightarrow> int \<Rightarrow> real \<Rightarrow> real \<Rightarrow> real \<Rightarrow> int list \<Rightarrow> int list" where
  "rank_loop costlist 0 j totalcost mycost targetcost ranklist = ranklist"
| "rank_loop costlist (Suc i) j totalcost mycost targetcost ranklist =
     (let mycost = mycost + costlist ! i;
          ranklist = ranklist[i := j]
      in if mycost \<ge> targetcost \<and> j > 0
         then (let j = j - 1;
                   totalcost = totalcost - mycost;
                   mycost = 0.0;
                   targetcost = totalcost / real_of_int (j + 1)
               in rank_loop costlist i j totalcost mycost targetcost ranklist)
         else rank_loop costlist i j totalcost mycost targetcost ranklist)"

text \<open>Lines 271 and 285-300: \<open>g\<close> is the indeterminate content of \<^verbatim>\<open>new int[nbtotal]\<close>.\<close>

definition Mesh_ranklist :: "(nat \<Rightarrow> int) \<Rightarrow> real list \<Rightarrow> int \<Rightarrow> int list" where
  "Mesh_ranklist g costlist nproc =
     (let nbtotal = length costlist;
          ranklist = new_array g nbtotal;
          totalcost = cost_loop costlist 0.0;
          j = nproc - 1;
          targetcost = totalcost / real_of_int nproc;
          mycost = 0.0
      in rank_loop costlist nbtotal j totalcost mycost targetcost ranklist)"

text \<open>
  \<^verbatim>\<open>for(i=1;i<nbtotal;i++)\<close>, lines 303-309: at a change of rank,
  \<^verbatim>\<open>nblist[j]=i-nslist[j]; nslist[++j]=i;\<close>.
\<close>

function nslist_loop ::
  "int list \<Rightarrow> nat \<Rightarrow> nat \<Rightarrow> nat \<Rightarrow> int list \<Rightarrow> int list
     \<Rightarrow> mesh_error + (nat \<times> int list \<times> int list)" where
  "nslist_loop ranklist nbtotal i j nslist nblist =
     (if i < nbtotal then
        (if ranklist ! i \<noteq> ranklist ! (i - 1) then
           (if j < length nblist \<and> Suc j < length nslist
            then nslist_loop ranklist nbtotal (i + 1) (Suc j)
                   (nslist[Suc j := int i]) (nblist[j := int i - nslist ! j])
            else Inl OutOfBounds)
         else nslist_loop ranklist nbtotal (i + 1) j nslist nblist)
      else Inr (j, nslist, nblist))"
  by pat_completeness auto
termination
  by (relation "measure (\<lambda>(ranklist, nbtotal, i, j, nslist, nblist). nbtotal - i)") auto

text \<open>Lines 301-310: \<^verbatim>\<open>nslist[0]=0\<close>, the loop, and \<^verbatim>\<open>nblist[j]=nbtotal-nslist[j]\<close>.\<close>

definition make_nslist ::
  "int list \<Rightarrow> int list \<Rightarrow> int list \<Rightarrow> mesh_error + (int list \<times> int list)" where
  "make_nslist ranklist nslist nblist =
     (let nbtotal = length ranklist in
      if 0 < length nslist then
        (case nslist_loop ranklist nbtotal 1 0 (nslist[0 := 0]) nblist of
           Inl e \<Rightarrow> Inl e
         | Inr (j, nslist, nblist) \<Rightarrow>
             if j < length nblist \<and> j < length nslist
             then Inr (nslist, nblist[j := int nbtotal - nslist ! j])
             else Inl OutOfBounds)
      else Inl OutOfBounds)"

text \<open>
  The partition section of the fresh-run constructor, lines 271-310, for a given
  cost list: the result is \<open>(ranklist, nslist, nblist)\<close>. The functions \<open>g\<close>, \<open>gs\<close>
  and \<open>gb\<close> are the indeterminate contents of the three freshly allocated arrays.
\<close>

definition Mesh_partition ::
  "(nat \<Rightarrow> int) \<Rightarrow> (nat \<Rightarrow> int) \<Rightarrow> (nat \<Rightarrow> int) \<Rightarrow> real list \<Rightarrow> int
     \<Rightarrow> mesh_error + (int list \<times> int list \<times> int list)" where
  "Mesh_partition g gs gb costlist nproc =
     (let ranklist = Mesh_ranklist g costlist nproc;
          nslist = new_array gs (nat nproc);
          nblist = new_array gb (nat nproc)
      in case make_nslist ranklist nslist nblist of
           Inl e \<Rightarrow> Inl e
         | Inr (nslist, nblist) \<Rightarrow> Inr (ranklist, nslist, nblist))"





subsection \<open>The restart constructor\<close>

text \<open>
  The restart constructor \<^verbatim>\<open>Mesh::Mesh(ParameterInput*, WrapIO&, int)\<close> reads the cost
  list from the checkpoint and repeats the partition code, lines 792-838. Its loops are
  embedded separately, from its own text. Between the two loops it throws when there
  are fewer blocks than workers outside of test mode.
\<close>

fun restart_cost_loop :: "real list \<Rightarrow> real \<Rightarrow> real" where
  "restart_cost_loop [] totalcost = totalcost"
| "restart_cost_loop (c # rest) totalcost = restart_cost_loop rest (totalcost + c)"

fun restart_rank_loop ::
  "real list \<Rightarrow> nat \<Rightarrow> int \<Rightarrow> real \<Rightarrow> real \<Rightarrow> real \<Rightarrow> int list \<Rightarrow> int list" where
  "restart_rank_loop costlist 0 j totalcost mycost targetcost ranklist = ranklist"
| "restart_rank_loop costlist (Suc i) j totalcost mycost targetcost ranklist =
     (let mycost = mycost + costlist ! i;
          ranklist = ranklist[i := j]
      in if mycost \<ge> targetcost \<and> j > 0
         then (let j = j - 1;
                   totalcost = totalcost - mycost;
                   mycost = 0.0;
                   targetcost = totalcost / real_of_int (j + 1)
               in restart_rank_loop costlist i j totalcost mycost targetcost ranklist)
         else restart_rank_loop costlist i j totalcost mycost targetcost ranklist)"

definition Mesh_restart_ranklist :: "(nat \<Rightarrow> int) \<Rightarrow> real list \<Rightarrow> int \<Rightarrow> int list" where
  "Mesh_restart_ranklist g costlist nproc =
     (let nbtotal = length costlist;
          ranklist = new_array g nbtotal;
          totalcost = restart_cost_loop costlist 0.0;
          j = nproc - 1;
          targetcost = totalcost / real_of_int nproc;
          mycost = 0.0
      in restart_rank_loop costlist nbtotal j totalcost mycost targetcost ranklist)"

function restart_nslist_loop ::
  "int list \<Rightarrow> nat \<Rightarrow> nat \<Rightarrow> nat \<Rightarrow> int list \<Rightarrow> int list
     \<Rightarrow> mesh_error + (nat \<times> int list \<times> int list)" where
  "restart_nslist_loop ranklist nbtotal i j nslist nblist =
     (if i < nbtotal then
        (if ranklist ! i \<noteq> ranklist ! (i - 1) then
           (if j < length nblist \<and> Suc j < length nslist
            then restart_nslist_loop ranklist nbtotal (i + 1) (Suc j)
                   (nslist[Suc j := int i]) (nblist[j := int i - nslist ! j])
            else Inl OutOfBounds)
         else restart_nslist_loop ranklist nbtotal (i + 1) j nslist nblist)
      else Inr (j, nslist, nblist))"
  by pat_completeness auto
termination
  by (relation "measure (\<lambda>(ranklist, nbtotal, i, j, nslist, nblist). nbtotal - i)") auto

definition restart_make_nslist ::
  "int list \<Rightarrow> int list \<Rightarrow> int list \<Rightarrow> mesh_error + (int list \<times> int list)" where
  "restart_make_nslist ranklist nslist nblist =
     (let nbtotal = length ranklist in
      if 0 < length nslist then
        (case restart_nslist_loop ranklist nbtotal 1 0 (nslist[0 := 0]) nblist of
           Inl e \<Rightarrow> Inl e
         | Inr (j, nslist, nblist) \<Rightarrow>
             if j < length nblist \<and> j < length nslist
             then Inr (nslist, nblist[j := int nbtotal - nslist ! j])
             else Inl OutOfBounds)
      else Inl OutOfBounds)"

definition Mesh_restart_partition ::
  "(nat \<Rightarrow> int) \<Rightarrow> (nat \<Rightarrow> int) \<Rightarrow> (nat \<Rightarrow> int) \<Rightarrow> real list \<Rightarrow> int \<Rightarrow> int
     \<Rightarrow> mesh_error + (int list \<times> int list \<times> int list)" where
  "Mesh_restart_partition g gs gb costlist nproc test_flag =
     (let nbtotal = length costlist;
          ranklist = Mesh_restart_ranklist g costlist nproc;
          nslist = new_array gs (nat nproc);
          nblist = new_array gb (nat nproc)
      in if int nbtotal < nproc \<and> test_flag = 0 then Inl TooFewBlocks
         else case restart_make_nslist ranklist nslist nblist of
                Inl e \<Rightarrow> Inl e
              | Inr (nslist, nblist) \<Rightarrow> Inr (ranklist, nslist, nblist))"


section \<open>Mesh constructor: neighbor wiring\<close>

text \<open>
  Lines 443-630 of the fresh-run constructor, for one block. The classes \<^verbatim>\<open>BlockTree\<close>,
  \<^verbatim>\<open>BlockUID\<close> and \<^verbatim>\<open>NeighborBlock\<close> and the enumeration of directions are declared in
  headers that are not at hand. The tree lookups are therefore parameters of the
  model, over an arbitrary type \<open>'n\<close> of tree nodes: \<open>FindNeighbor\<close> for the block at
  hand (\<open>None\<close> is the null result), \<open>GetNeighbor\<close> and \<open>GetLeaf\<close> (\<open>None\<close> is a null
  leaf). The record \<open>wiring\<close> collects what the code reads: the location of the block
  (\<^verbatim>\<open>lx1, lx2, lx3, ll\<close>), the root grid, the boundary flags and sizes of the mesh,
  and the two arrays of the partition planner.
\<close>

datatype direction = inner_x1 | outer_x1 | inner_x2 | outer_x2 | inner_x3 | outer_x3

record NeighborBlock =
  rank :: int
  level :: int
  gid :: int
  lid :: int
  fb1 :: int
  fb2 :: int

record 'n wiring =
  lx1 :: int
  lx2 :: int
  lx3 :: int
  ll :: int
  nrbx1 :: int
  nrbx2 :: int
  nrbx3 :: int
  root_level :: int
  mesh_bcs :: "direction \<Rightarrow> int"
  mesh_nx2 :: int
  mesh_nx3 :: int
  FindNeighbor :: "direction \<Rightarrow> 'n option"
  GetNeighbor :: "'n \<Rightarrow> NeighborBlock"
  GetLeaf :: "'n \<Rightarrow> int \<Rightarrow> int \<Rightarrow> int \<Rightarrow> 'n option"
  w_ranklist :: "int list"
  w_nslist :: "int list"

text \<open>
  The array \<^verbatim>\<open>neighbor[6][2][2]\<close> of a block. A cell the wiring has not stored to is
  \<open>None\<close>, so that the records stored for a face can be counted.
\<close>

type_synonym neighbors = "direction \<times> int \<times> int \<rightharpoonup> NeighborBlock"

text \<open>
  Modelled from the spec: \<^verbatim>\<open>MeshBlock::SetNeighbor\<close>, whose definition is missing. The
  spec gives a block "a 6-direction x 2x2 array of Neighbor records" with target rank,
  level, global and local ID and a 2-D sub-index, and has the finer neighbors stored
  "each annotated with its sub-face index": the call stores one record in the cell of
  its direction and sub-face index. The calls with five arguments use the index (0,0).
\<close>

definition SetNeighbor ::
  "neighbors \<Rightarrow> direction \<Rightarrow> int \<Rightarrow> int \<Rightarrow> int \<Rightarrow> int \<Rightarrow> int \<Rightarrow> int \<Rightarrow> neighbors" where
  "SetNeighbor nbrs d irank ilevel igid ilid ifb1 ifb2 =
     nbrs((d, ifb1, ifb2) \<mapsto>
       \<lparr>rank = irank, level = ilevel, gid = igid, lid = ilid, fb1 = ifb1, fb2 = ifb2\<rparr>)"

text \<open>An array read \<^verbatim>\<open>a[i]\<close> with a computed index.\<close>

definition read_int :: "int list \<Rightarrow> int \<Rightarrow> mesh_error + int" where
  "read_int a i = (if 0 \<le> i \<and> i < int (length a) then Inr (a ! nat i) else Inl OutOfBounds)"

definition and_then :: "mesh_error + 'a \<Rightarrow> ('a \<Rightarrow> mesh_error + 'b) \<Rightarrow> mesh_error + 'b" where
  "and_then r f = (case r of Inl err \<Rightarrow> Inl err | Inr v \<Rightarrow> f v)"

text \<open>
  The statement \<^verbatim>\<open>pblock->SetNeighbor(dir, ranklist[nei.gid], nei.level, nei.gid,
  nei.gid-nslist[ranklist[nei.gid]], fb1, fb2)\<close>, which the source repeats for every
  store of a tree neighbor.
\<close>

definition set_from ::
  "'n wiring \<Rightarrow> neighbors \<Rightarrow> direction \<Rightarrow> NeighborBlock \<Rightarrow> int \<Rightarrow> int
     \<Rightarrow> mesh_error + neighbors" where
  "set_from w nbrs d nei ifb1 ifb2 =
     and_then (read_int (w_ranklist w) (gid nei)) (\<lambda>r.
     and_then (read_int (w_nslist w) r) (\<lambda>s.
       Inr (SetNeighbor nbrs d r (level nei) (gid nei) (gid nei - s) ifb1 ifb2)))"

text \<open>\<^verbatim>\<open>nei= neibt->GetLeaf(a,b,c)->GetNeighbor();\<close> followed by the store.\<close>

definition set_leaf ::
  "'n wiring \<Rightarrow> 'n \<Rightarrow> direction \<Rightarrow> int \<times> int \<times> int \<Rightarrow> int \<Rightarrow> int \<Rightarrow> neighbors
     \<Rightarrow> mesh_error + neighbors" where
  "set_leaf w neibt d abc ifb1 ifb2 nbrs =
     (case abc of (a, b, c) \<Rightarrow>
        (case GetLeaf w neibt a b c of
           None \<Rightarrow> Inl NullPointer
         | Some leaf \<Rightarrow> set_from w nbrs d (GetNeighbor w leaf) ifb1 ifb2))"

text \<open>
  The code of one face. The source has it six times; the copies differ in the test
  \<open>boundary\<close> that selects the physical-boundary record and in the four child octants
  asked of \<open>GetLeaf\<close>, which are the arguments here.
\<close>

definition wire_face ::
  "'n wiring \<Rightarrow> direction \<Rightarrow> bool
     \<Rightarrow> (int \<times> int \<times> int) \<times> (int \<times> int \<times> int) \<times> (int \<times> int \<times> int) \<times> (int \<times> int \<times> int)
     \<Rightarrow> neighbors \<Rightarrow> mesh_error + neighbors" where
  "wire_face w d boundary octants nbrs =
     (if boundary then Inr (SetNeighbor nbrs d (-1) (-1) (-1) (-1) 0 0)
      else
        (case FindNeighbor w d of
           None \<Rightarrow> Inl NeighborSearchFailed
         | Some neibt \<Rightarrow>
             (let nei = GetNeighbor w neibt in
              if level nei = ll w \<or> level nei = ll w - 1
              then set_from w nbrs d nei 0 0
              else
                (case octants of (o1, o2, o3, o4) \<Rightarrow>
                   and_then (set_leaf w neibt d o1 0 0 nbrs) (\<lambda>nbrs.
                   and_then (set_leaf w neibt d o2 0 1 nbrs) (\<lambda>nbrs.
                   and_then (set_leaf w neibt d o3 1 0 nbrs) (\<lambda>nbrs.
                     set_leaf w neibt d o4 1 1 nbrs)))))))"

text \<open>\<^verbatim>\<open>nrbx<<(ll-root_level)\<close>, on unbounded integers.\<close>

definition shifted :: "int \<Rightarrow> 'n wiring \<Rightarrow> int" where
  "shifted nrbx w = nrbx * 2 ^ nat (ll w - root_level w)"

text \<open>The test that selects the physical-boundary record of a face, as the source
  writes it for each of the six faces.\<close>

fun boundary_face :: "'n wiring \<Rightarrow> direction \<Rightarrow> bool" where
  "boundary_face w inner_x1 \<longleftrightarrow> lx1 w = 0 \<and> mesh_bcs w inner_x1 \<noteq> 4"
| "boundary_face w outer_x1 \<longleftrightarrow> lx1 w = shifted (nrbx1 w) w - 1 \<and> mesh_bcs w outer_x1 \<noteq> 4"
| "boundary_face w inner_x2 \<longleftrightarrow> (lx2 w = 0 \<and> mesh_bcs w inner_x2 \<noteq> 4) \<or> mesh_nx2 w = 1"
| "boundary_face w outer_x2 \<longleftrightarrow>
     (lx2 w = shifted (nrbx2 w) w - 1 \<and> mesh_bcs w outer_x2 \<noteq> 4) \<or> mesh_nx2 w = 1"
| "boundary_face w inner_x3 \<longleftrightarrow> (lx3 w = 0 \<and> mesh_bcs w inner_x3 \<noteq> 4) \<or> mesh_nx3 w = 1"
| "boundary_face w outer_x3 \<longleftrightarrow>
     (lx3 w = shifted (nrbx3 w) w - 1 \<and> mesh_bcs w outer_x3 \<noteq> 4) \<or> mesh_nx3 w = 1"

text \<open>The child octants asked of \<open>GetLeaf\<close> for a finer neighbor, per face.\<close>

fun octants_of ::
  "direction \<Rightarrow> (int \<times> int \<times> int) \<times> (int \<times> int \<times> int) \<times> (int \<times> int \<times> int) \<times> (int \<times> int \<times> int)" where
  "octants_of inner_x1 = ((1,0,0), (1,0,1), (1,1,0), (1,1,1))"
| "octants_of outer_x1 = ((0,0,0), (0,0,1), (0,1,0), (0,1,1))"
| "octants_of inner_x2 = ((0,1,0), (0,1,1), (1,1,0), (1,1,1))"
| "octants_of outer_x2 = ((0,0,0), (0,0,1), (1,0,0), (1,0,1))"
| "octants_of inner_x3 = ((0,0,1), (0,1,1), (1,0,1), (1,1,1))"
| "octants_of outer_x3 = ((0,0,0), (0,1,0), (1,0,0), (1,1,0))"

definition wire ::
  "'n wiring \<Rightarrow> direction \<Rightarrow> neighbors \<Rightarrow> mesh_error + neighbors" where
  "wire w d nbrs = wire_face w d (boundary_face w d) (octants_of d) nbrs"

text \<open>The six faces in the order of the source, on the array of a new block.\<close>

definition wire_block :: "'n wiring \<Rightarrow> mesh_error + neighbors" where
  "wire_block w =
     and_then (wire w inner_x1 Map.empty) (\<lambda>nbrs.
     and_then (wire w outer_x1 nbrs) (\<lambda>nbrs.
     and_then (wire w inner_x2 nbrs) (\<lambda>nbrs.
     and_then (wire w outer_x2 nbrs) (\<lambda>nbrs.
     and_then (wire w inner_x3 nbrs) (\<lambda>nbrs.
       wire w outer_x3 nbrs)))))"

text \<open>The sub-face indices of the cells of face \<open>d\<close> that hold a record.\<close>

definition stored :: "neighbors \<Rightarrow> direction \<Rightarrow> (int \<times> int) list" where
  "stored nbrs d = filter (\<lambda>(i, j). nbrs (d, i, j) \<noteq> None) [(0,0), (0,1), (1,0), (1,1)]"


text \<open>
  For the proofs: the faces wired one after the other from a list, what the wiring of
  face \<open>d\<close> leaves in the array (\<open>face_wired\<close>), and the stored sub-face indices of a
  result that may be a failure.
\<close>

fun wire_all :: "'n wiring \<Rightarrow> direction list \<Rightarrow> neighbors \<Rightarrow> mesh_error + neighbors" where
  "wire_all w [] nbrs = Inr nbrs"
| "wire_all w (d # ds) nbrs = and_then (wire w d nbrs) (wire_all w ds)"

definition face_wired :: "'n wiring \<Rightarrow> direction \<Rightarrow> neighbors \<Rightarrow> bool" where
  "face_wired w d nbrs \<longleftrightarrow>
     (boundary_face w d \<longrightarrow> stored nbrs d = [(0,0)]) \<and>
     (\<not> boundary_face w d \<longrightarrow>
        (\<exists>neibt. FindNeighbor w d = Some neibt \<and>
           (if level (GetNeighbor w neibt) = ll w \<or> level (GetNeighbor w neibt) = ll w - 1
            then stored nbrs d = [(0,0)]
            else stored nbrs d = [(0,0), (0,1), (1,0), (1,1)] \<and>
                 (\<forall>(i, j)\<in>set (stored nbrs d).
                    \<exists>r. nbrs (d, i, j) = Some r \<and> fb1 r = i \<and> fb2 r = j))))"

definition records_of :: "mesh_error + neighbors \<Rightarrow> direction \<Rightarrow> (int \<times> int) list" where
  "records_of res d = (case res of Inl err \<Rightarrow> [] | Inr nbrs \<Rightarrow> stored nbrs d)"


subsection \<open>A sample two-dimensional mesh\<close>

text \<open>
  A concrete input for the runs below: a two-dimensional mesh (\<^verbatim>\<open>nx3 = 1\<close>), periodic in
  every direction (flag 4), with a root grid of 2 x 1 blocks at logical level 1. The
  block wired is block 0 at \<open>lx1 = 0\<close>; tree nodes are numbers. Its neighbor in x1 is
  node 0, a refined block whose children are the leaves 1 to 4 at level 2 with
  global IDs 1 to 4 (\<open>GetLeaf\<close> ignores the third coordinate in two dimensions); its
  neighbor in x2 is itself, node 5, at level 1 with global ID 0. All five blocks
  belong to rank 0.
\<close>

definition sample_FindNeighbor :: "direction \<Rightarrow> nat option" where
  "sample_FindNeighbor d =
     (if d = inner_x1 \<or> d = outer_x1 then Some 0
      else if d = inner_x2 \<or> d = outer_x2 then Some 5 else None)"

definition sample_GetNeighbor :: "nat \<Rightarrow> NeighborBlock" where
  "sample_GetNeighbor k =
     (if k = 5 then \<lparr>rank = 0, level = 1, gid = 0, lid = 0, fb1 = 0, fb2 = 0\<rparr>
      else if k = 0 then \<lparr>rank = - 1, level = 2, gid = - 1, lid = - 1, fb1 = 0, fb2 = 0\<rparr>
      else \<lparr>rank = 0, level = 2, gid = int k, lid = int k, fb1 = 0, fb2 = 0\<rparr>)"

definition sample_GetLeaf :: "nat \<Rightarrow> int \<Rightarrow> int \<Rightarrow> int \<Rightarrow> nat option" where
  "sample_GetLeaf k a b c = (if k = 0 then Some (nat (1 + a + 2 * b)) else None)"

definition periodic :: "direction \<Rightarrow> int" where
  "periodic d = 4"

definition mesh2d :: "nat wiring" where
  "mesh2d = \<lparr>lx1 = 0, lx2 = 0, lx3 = 0, ll = 1, nrbx1 = 2, nrbx2 = 1, nrbx3 = 1,
             root_level = 1, mesh_bcs = periodic, mesh_nx2 = 8, mesh_nx3 = 1,
             FindNeighbor = sample_FindNeighbor, GetNeighbor = sample_GetNeighbor,
             GetLeaf = sample_GetLeaf, w_ranklist = [0, 0, 0, 0, 0], w_nslist = [0]\<rparr>"


section \<open>The task scheduler: MeshBlock::DoOneTask\<close>

text \<open>
  The header \<^verbatim>\<open>tasklist.hpp\<close> is not part of the sources at hand, so the width of the
  task masks is a type parameter \<open>'w\<close>, and the enumeration \<^verbatim>\<open>tlstatus\<close> has the four
  values that \<^verbatim>\<open>mesh.cpp\<close> uses.

  A task function is called as \<^verbatim>\<open>ti.TaskFunc(this, ti.task_arg)\<close> and returns a flag.
  In the model it reads the completed mask of its block and the state \<open>'e\<close> of
  everything outside the scheduler (fields, boundary buffers, messages in flight),
  and returns its flag with the new outside state. Task functions do not write the
  scheduler fields \<^verbatim>\<open>firsttask\<close>, \<^verbatim>\<open>ntodo\<close>, \<^verbatim>\<open>task_flag\<close> and \<^verbatim>\<open>task\<close>.
\<close>

datatype tlstatus = nothing | stuck | running | complete

record (overloaded) ('w, 'e) Task =
  taskid :: "'w word"
  depend :: "'w word"
  TaskFunc :: "'w word \<Rightarrow> 'e \<Rightarrow> bool \<times> 'e"

text \<open>The scheduler fields of a \<^verbatim>\<open>MeshBlock\<close>; \<^verbatim>\<open>ntask\<close> is the length of \<open>task\<close>.\<close>

record (overloaded) ('w, 'e) MeshBlock =
  task :: "('w, 'e) Task list"
  firsttask :: nat
  ntodo :: int
  task_flag :: "'w word"

text \<open>
  One invocation of a task function, recorded for the statements about which tasks are
  invoked: the index of the task, the completed mask at the call, and the flag returned.
  The list of invocations is not program state.
\<close>

type_synonym 'w invocation = "nat \<times> 'w word \<times> bool"

text \<open>The \<^verbatim>\<open>for\<close> loop of \<^verbatim>\<open>DoOneTask\<close>, lines 1615-1634, from index \<open>i\<close> on.\<close>

function DoOneTask_loop ::
  "('w::len, 'e) MeshBlock \<Rightarrow> nat \<Rightarrow> nat \<Rightarrow> 'e \<Rightarrow> 'w invocation list
     \<Rightarrow> tlstatus \<times> ('w, 'e) MeshBlock \<times> 'e \<times> 'w invocation list" where
  "DoOneTask_loop b i skip e calls =
     (if i < length (task b) then
        (let ti = task b ! i in
         if taskid ti AND task_flag b = 0 then
           (if depend ti AND task_flag b = depend ti then
              (case TaskFunc ti (task_flag b) e of
                 (True, e') \<Rightarrow>
                   (let calls = calls @ [(i, task_flag b, True)];
                        b = b\<lparr>ntodo := ntodo b - 1, task_flag := task_flag b OR taskid ti\<rparr>;
                        b = (if skip = 0 then b\<lparr>firsttask := firsttask b + 1\<rparr> else b)
                    in (if ntodo b = 0 then complete else running, b, e', calls))
               | (False, e') \<Rightarrow>
                   DoOneTask_loop b (i + 1) (skip + 1) e' (calls @ [(i, task_flag b, False)]))
            else DoOneTask_loop b (i + 1) (skip + 1) e calls)
         else if skip = 0 then DoOneTask_loop (b\<lparr>firsttask := firsttask b + 1\<rparr>) (i + 1) skip e calls
         else DoOneTask_loop b (i + 1) skip e calls)
      else (stuck, b, e, calls))"
  by pat_completeness auto
termination
  by (relation "measure (\<lambda>(b, i, skip, e, calls). length (task b) - i)") auto

definition DoOneTask ::
  "('w::len, 'e) MeshBlock \<Rightarrow> 'e
     \<Rightarrow> tlstatus \<times> ('w, 'e) MeshBlock \<times> 'e \<times> 'w invocation list" where
  "DoOneTask b e =
     (if ntodo b = 0 then (nothing, b, e, [])
      else DoOneTask_loop b (firsttask b) 0 e [])"


text \<open>
  A task is eligible under a completed mask when none of its bits is in the mask and
  its dependency mask is contained in the mask (the two tests of lines 1617-1618).
\<close>

definition eligible :: "('w::len, 'e) Task \<Rightarrow> 'w word \<Rightarrow> bool" where
  "eligible ti flag \<longleftrightarrow> taskid ti AND flag = 0 \<and> depend ti AND flag = depend ti"

text \<open>Index \<open>k\<close> is the first eligible task at or after the cursor of block \<open>b\<close>.\<close>

definition first_eligible :: "('w::len, 'e) MeshBlock \<Rightarrow> nat \<Rightarrow> bool" where
  "first_eligible b k \<longleftrightarrow>
     firsttask b \<le> k \<and> k < length (task b) \<and> eligible (task b ! k) (task_flag b) \<and>
     (\<forall>i<k. firsttask b \<le> i \<longrightarrow> \<not> eligible (task b ! i) (task_flag b))"


text \<open>
  What one run of the loop from index \<open>i\<close> achieves, used in the proofs below: \<open>new\<close> is
  the list of invocations the run makes, \<open>st\<close> the status it returns and \<open>b'\<close> the block
  it leaves.
\<close>

definition loop_post ::
  "('w::len, 'e) MeshBlock \<Rightarrow> nat \<Rightarrow> 'e \<Rightarrow> tlstatus \<Rightarrow> ('w, 'e) MeshBlock
     \<Rightarrow> 'w invocation list \<Rightarrow> bool" where
  "loop_post b i e st b' new \<longleftrightarrow>
     task b' = task b \<and> st \<noteq> nothing \<and>
     (\<forall>c\<in>set new. i \<le> fst c \<and> fst c < length (task b) \<and> fst (snd c) = task_flag b \<and>
                    eligible (task b ! fst c) (task_flag b)) \<and>
     (st = stuck \<longrightarrow>
        task_flag b' = task_flag b \<and> ntodo b' = ntodo b \<and> (\<forall>c\<in>set new. \<not> snd (snd c)) \<and>
        (\<forall>k. i \<le> k \<and> k < length (task b) \<and> eligible (task b ! k) (task_flag b)
              \<longrightarrow> k \<in> fst ` set new)) \<and>
     (st \<noteq> stuck \<longrightarrow>
        new \<noteq> [] \<and> snd (snd (last new)) \<and> (\<forall>c\<in>set (butlast new). \<not> snd (snd c)) \<and>
        task_flag b' = task_flag b OR taskid (task b ! fst (last new)) \<and>
        ntodo b' = ntodo b - 1 \<and>
        st = (if ntodo b' = 0 then complete else running)) \<and>
     (\<forall>k. i \<le> k \<and> k < length (task b) \<and> eligible (task b ! k) (task_flag b) \<and>
          (\<forall>m<k. i \<le> m \<longrightarrow> \<not> eligible (task b ! m) (task_flag b))
          \<longrightarrow> new \<noteq> [] \<and>
              hd new = (k, task_flag b, fst (TaskFunc (task b ! k) (task_flag b) e)))"


subsection \<open>Successive calls on one block\<close>

text \<open>
  The first \<open>n\<close> calls of \<^verbatim>\<open>DoOneTask\<close> on one block within a round, with the statuses
  they return and all their invocations in order. Between two calls of the same block
  the driver serves the other blocks and messages arrive: \<open>other n\<close> is what happens to
  the outside state before call number \<open>n\<close>.
\<close>

fun DoTasks ::
  "(nat \<Rightarrow> 'e \<Rightarrow> 'e) \<Rightarrow> nat \<Rightarrow> ('w::len, 'e) MeshBlock \<Rightarrow> 'e
     \<Rightarrow> tlstatus list \<times> ('w, 'e) MeshBlock \<times> 'e \<times> 'w invocation list" where
  "DoTasks other 0 b e = ([], b, e, [])"
| "DoTasks other (Suc n) b e =
     (case DoTasks other n b e of (sts, b1, e1, calls1) \<Rightarrow>
        (case DoOneTask b1 (other n e1) of (st, b2, e2, calls2) \<Rightarrow>
           (sts @ [st], b2, e2, calls1 @ calls2)))"

text \<open>The reset of the scheduler fields at the start of a round, lines 1555-1557.\<close>

definition reset_tasks :: "('w::len, 'e) MeshBlock \<Rightarrow> ('w, 'e) MeshBlock" where
  "reset_tasks b = b\<lparr>firsttask := 0, ntodo := int (length (task b)), task_flag := 0\<rparr>"


text \<open>
  Two predicates on a list of invocations, used in the proofs about successive calls.
  \<open>calls_ok\<close>: every invocation is of an eligible task under the mask of its call, and
  the bits of every task that reported work earlier are in that mask. \<open>calls_below\<close>:
  every recorded mask, and the bits of every task that reported work, lie in \<open>flag\<close>.
\<close>

definition calls_ok :: "('w::len, 'e) Task list \<Rightarrow> 'w invocation list \<Rightarrow> bool" where
  "calls_ok ts calls \<longleftrightarrow>
     (\<forall>q<length calls.
        fst (calls ! q) < length ts \<and>
        eligible (ts ! fst (calls ! q)) (fst (snd (calls ! q))) \<and>
        (\<forall>p<q. snd (snd (calls ! p)) \<longrightarrow>
           taskid (ts ! fst (calls ! p)) AND fst (snd (calls ! q)) = taskid (ts ! fst (calls ! p))))"

definition calls_below ::
  "('w::len, 'e) Task list \<Rightarrow> 'w invocation list \<Rightarrow> 'w word \<Rightarrow> bool" where
  "calls_below ts calls flag \<longleftrightarrow>
     (\<forall>c\<in>set calls. fst (snd c) AND flag = fst (snd c) \<and>
        (snd (snd c) \<longrightarrow> taskid (ts ! fst c) AND flag = taskid (ts ! fst c)))"


subsection \<open>Well-formed task lists\<close>

text \<open>
  The conditions on a task list under which the scheduler is shown to finish a round.
  Task identifiers are unique bits: none is empty and no two share a bit. Task \<open>i\<close>
  depends on task \<open>j\<close> when a bit of \<open>j\<close> is in the dependency mask of \<open>i\<close>; \<open>dep_rel\<close> is
  this graph. A list is satisfiable when every dependency bit belongs to some task of
  the list, and its functions always proceed when each of them reports work done
  whenever it is called under a mask that contains its dependencies.
\<close>

definition unique_ids :: "('w::len, 'e) Task list \<Rightarrow> bool" where
  "unique_ids ts \<longleftrightarrow>
     (\<forall>i<length ts. taskid (ts ! i) \<noteq> 0) \<and>
     (\<forall>i<length ts. \<forall>j<length ts. i \<noteq> j \<longrightarrow> taskid (ts ! i) AND taskid (ts ! j) = 0)"

definition dep_rel :: "('w::len, 'e) Task list \<Rightarrow> (nat \<times> nat) set" where
  "dep_rel ts = {(j, i). i < length ts \<and> j < length ts \<and> depend (ts ! i) AND taskid (ts ! j) \<noteq> 0}"

definition all_ids :: "('w::len, 'e) Task list \<Rightarrow> 'w word" where
  "all_ids ts = foldr (\<lambda>t acc. taskid t OR acc) ts 0"

definition satisfiable :: "('w::len, 'e) Task list \<Rightarrow> bool" where
  "satisfiable ts \<longleftrightarrow> (\<forall>i<length ts. depend (ts ! i) AND all_ids ts = depend (ts ! i))"

definition always_proceeds :: "('w::len, 'e) Task list \<Rightarrow> bool" where
  "always_proceeds ts \<longleftrightarrow>
     (\<forall>i<length ts. \<forall>flag e. depend (ts ! i) AND flag = depend (ts ! i)
        \<longrightarrow> fst (TaskFunc (ts ! i) flag e))"

text \<open>
  The invariant of a round on a block, used in the proofs: every task identifier is
  wholly inside or wholly outside the completed mask, \<^verbatim>\<open>ntodo\<close> counts the tasks outside,
  and every task below the cursor is inside.
\<close>

definition round_inv :: "('w::len, 'e) MeshBlock \<Rightarrow> bool" where
  "round_inv b \<longleftrightarrow>
     (\<forall>i<length (task b). taskid (task b ! i) AND task_flag b = 0 \<or>
                           taskid (task b ! i) AND task_flag b = taskid (task b ! i)) \<and>
     ntodo b = int (card {i. i < length (task b) \<and> taskid (task b ! i) AND task_flag b = 0}) \<and>
     firsttask b \<le> length (task b) \<and>
     (\<forall>i<firsttask b. taskid (task b ! i) AND task_flag b \<noteq> 0)"


section \<open>The driver: Mesh::UpdateOneStep\<close>

text \<open>
  \<^verbatim>\<open>StartReceivingAll\<close> and \<^verbatim>\<open>ClearBoundaryAll\<close> belong to \<^verbatim>\<open>BoundaryValues\<close>, whose source
  is not at hand; they act on the outside state and are parameters, applied with the
  position of the block in the list. The counter \<^verbatim>\<open>nb\<close> starts at
  \<^verbatim>\<open>nbend-nbstart+1\<close>, also a parameter.
\<close>

text \<open>The initialising loop, lines 1554-1560.\<close>

fun start_round ::
  "(nat \<Rightarrow> 'e \<Rightarrow> 'e) \<Rightarrow> nat \<Rightarrow> ('w::len, 'e) MeshBlock list \<Rightarrow> 'e
     \<Rightarrow> ('w, 'e) MeshBlock list \<times> 'e" where
  "start_round StartReceivingAll pos [] e = ([], e)"
| "start_round StartReceivingAll pos (pmb # rest) e =
     (let pmb = pmb\<lparr>firsttask := 0, ntodo := int (length (task pmb)), task_flag := 0\<rparr>;
          e = StartReceivingAll pos e
      in case start_round StartReceivingAll (pos + 1) rest e of
           (rest, e) \<Rightarrow> (pmb # rest, e))"

text \<open>
  One pass of the inner loop over the blocks, lines 1564-1569, with the statuses the
  calls returned (kept for the statements below; not program state).
\<close>

fun sweep ::
  "('w::len, 'e) MeshBlock list \<Rightarrow> int \<Rightarrow> 'e
     \<Rightarrow> ('w, 'e) MeshBlock list \<times> int \<times> 'e \<times> tlstatus list" where
  "sweep [] nb e = ([], nb, e, [])"
| "sweep (pmb # rest) nb e =
     (case DoOneTask pmb e of
        (st, pmb, e, calls) \<Rightarrow>
          (case sweep rest (if st = complete then nb - 1 else nb) e of
             (rest, nb, e, sts) \<Rightarrow> (pmb # rest, nb, e, st # sts)))"

text \<open>The main loop \<^verbatim>\<open>while(nb>0)\<close>, lines 1563-1570. It has no other exit, so it is a
  partial function: \<open>None\<close> means that the loop does not return.\<close>

partial_function (option) main_loop ::
  "('w::len, 'e) MeshBlock list \<Rightarrow> int \<Rightarrow> 'e \<Rightarrow> (('w, 'e) MeshBlock list \<times> 'e) option" where
  "main_loop blocks nb e =
     (if nb > 0 then
        (case sweep blocks nb e of (blocks, nb, e, sts) \<Rightarrow> main_loop blocks nb e)
      else Some (blocks, e))"

text \<open>The closing loop, lines 1572-1576.\<close>

fun clear_round :: "(nat \<Rightarrow> 'e \<Rightarrow> 'e) \<Rightarrow> nat \<Rightarrow> ('w::len, 'e) MeshBlock list \<Rightarrow> 'e \<Rightarrow> 'e" where
  "clear_round ClearBoundaryAll pos [] e = e"
| "clear_round ClearBoundaryAll pos (pmb # rest) e =
     clear_round ClearBoundaryAll (pos + 1) rest (ClearBoundaryAll pos e)"

definition UpdateOneStep ::
  "(nat \<Rightarrow> 'e \<Rightarrow> 'e) \<Rightarrow> (nat \<Rightarrow> 'e \<Rightarrow> 'e) \<Rightarrow> int \<Rightarrow> ('w::len, 'e) MeshBlock list \<Rightarrow> 'e
     \<Rightarrow> (('w, 'e) MeshBlock list \<times> 'e) option" where
  "UpdateOneStep StartReceivingAll ClearBoundaryAll nb blocks e =
     (case start_round StartReceivingAll 0 blocks e of
        (blocks, e) \<Rightarrow>
          (case main_loop blocks nb e of
             None \<Rightarrow> None
           | Some (blocks, e) \<Rightarrow> Some (blocks, clear_round ClearBoundaryAll 0 blocks e)))"

text \<open>
  The state of the main loop after \<open>k\<close> passes, and the condition that every block
  returns \<open>stuck\<close> in every pass from a state on.
\<close>

fun after_sweeps ::
  "nat \<Rightarrow> ('w::len, 'e) MeshBlock list \<times> int \<times> 'e \<Rightarrow> ('w, 'e) MeshBlock list \<times> int \<times> 'e" where
  "after_sweeps 0 s = s"
| "after_sweeps (Suc k) s =
     (case after_sweeps k s of
        (blocks, nb, e) \<Rightarrow>
          (case sweep blocks nb e of (blocks, nb, e, sts) \<Rightarrow> (blocks, nb, e)))"

definition sweep_statuses :: "('w::len, 'e) MeshBlock list \<times> int \<times> 'e \<Rightarrow> tlstatus list" where
  "sweep_statuses s = (case s of (blocks, nb, e) \<Rightarrow> snd (snd (snd (sweep blocks nb e))))"

definition permanently_stuck :: "('w::len, 'e) MeshBlock list \<times> int \<times> 'e \<Rightarrow> bool" where
  "permanently_stuck s \<longleftrightarrow> (\<forall>k. \<forall>st\<in>set (sweep_statuses (after_sweeps k s)). st = stuck)"


subsection \<open>Sample task lists\<close>

text \<open>
  Concrete inputs for the runs below, with 64-bit masks and no outside state. The task
  function \<open>always\<close> reports work done whenever it is called, \<open>never\<close> reports that it
  could not proceed. \<open>chain3\<close> lists three tasks against their dependency order (task 4
  needs 2, task 2 needs 1); in \<open>cycle2\<close> each of two tasks waits for the other.
\<close>

definition always :: "64 word \<Rightarrow> unit \<Rightarrow> bool \<times> unit" where
  "always flag e = (True, e)"

definition never :: "64 word \<Rightarrow> unit \<Rightarrow> bool \<times> unit" where
  "never flag e = (False, e)"

definition chain3 :: "(64, unit) Task list" where
  "chain3 = [\<lparr>taskid = 4, depend = 2, TaskFunc = always\<rparr>,
             \<lparr>taskid = 2, depend = 1, TaskFunc = always\<rparr>,
             \<lparr>taskid = 1, depend = 0, TaskFunc = always\<rparr>]"

definition cycle2 :: "(64, unit) Task list" where
  "cycle2 = [\<lparr>taskid = 1, depend = 2, TaskFunc = always\<rparr>,
             \<lparr>taskid = 2, depend = 1, TaskFunc = always\<rparr>]"


text \<open>A single task that waits for a bit no task of the list produces.\<close>

definition orphan1 :: "(64, unit) Task list" where
  "orphan1 = [\<lparr>taskid = 1, depend = 8, TaskFunc = always\<rparr>]"


text \<open>Nothing happens to the outside state between two calls.\<close>

definition undisturbed :: "nat \<Rightarrow> unit \<Rightarrow> unit" where
  "undisturbed n e = e"


text \<open>A sample of indeterminate memory for concrete runs: every cell reads 7.\<close>

definition stale7 :: "nat \<Rightarrow> int" where
  "stale7 k = 7"


section \<open>Properties of Mesh::NewTimeStep\<close>

declare DoOneTask_loop.simps [simp del]










section \<open>Properties of the partition planner\<close>






















lemma restart_cost_loop_eq: "restart_cost_loop cl T = cost_loop cl T"
  by (induction cl arbitrary: T) simp_all

lemma restart_rank_loop_eq:
  "restart_rank_loop cl n j T m t rl = rank_loop cl n j T m t rl"
  by (induction n arbitrary: j T m t rl) (simp_all add: Let_def)

lemma restart_nslist_loop_eq:
  "restart_nslist_loop rl N i j ns nb = nslist_loop rl N i j ns nb"
proof (induction rl N i j ns nb rule: nslist_loop.induct)
  case (1 rl N i j ns nb)
  show ?case
    by (subst restart_nslist_loop.simps, subst nslist_loop.simps) (use 1 in simp)
qed

text \<open>
  C8. The rank assignment recomputed on restart is the fresh-run one: for every cost
  list and every worker count, the loops of the restart constructor compute the same
  \<open>ranklist\<close>, \<open>nslist\<close> and \<open>nblist\<close> as the loops of the fresh-run constructor, from
  the same array contents. The restart code as a whole differs from them only by the
  exception it throws between the loops when there are fewer blocks than workers and
  \<^verbatim>\<open>test_flag\<close> is 0.
\<close>

theorem restart_partition_identical:
  "Mesh_restart_ranklist g costlist nproc = Mesh_ranklist g costlist nproc \<and>
   restart_make_nslist ranklist nslist nblist = make_nslist ranklist nslist nblist \<and>
   Mesh_restart_partition g gs gb costlist nproc test_flag =
     (if int (length costlist) < nproc \<and> test_flag = 0 then Inl TooFewBlocks
      else Mesh_partition g gs gb costlist nproc)"
proof -
  have rl: "Mesh_restart_ranklist g costlist nproc = Mesh_ranklist g costlist nproc"
    unfolding Mesh_restart_ranklist_def Mesh_ranklist_def
    by (simp only: restart_cost_loop_eq restart_rank_loop_eq)
  have mk: "restart_make_nslist rl ns nb = make_nslist rl ns nb" for rl ns nb
    unfolding restart_make_nslist_def make_nslist_def
    by (simp only: restart_nslist_loop_eq)
  have "Mesh_restart_partition g gs gb costlist nproc test_flag =
     (if int (length costlist) < nproc \<and> test_flag = 0 then Inl TooFewBlocks
      else Mesh_partition g gs gb costlist nproc)"
    unfolding Mesh_restart_partition_def Mesh_partition_def
    by (simp only: rl mk Let_def)
  with rl mk show ?thesis by simp
qed

theorem restart_partition_identical_witness:
  "Mesh_restart_ranklist stale7 [1, 1, 1, 1, 1] 3 = Mesh_ranklist stale7 [1, 1, 1, 1, 1] 3 \<and>
   Mesh_restart_partition stale7 stale7 stale7 [1, 1, 1, 1, 1] 3 0 =
     Inr ([0, 1, 1, 2, 2], [0, 1, 3], [1, 2, 2]) \<and>
   Mesh_partition stale7 stale7 stale7 [1, 1, 1, 1, 1] 3 =
     Inr ([0, 1, 1, 2, 2], [0, 1, 3], [1, 2, 2])"
proof -
  have fresh: "Mesh_partition stale7 stale7 stale7 [1, 1, 1, 1, 1] 3 =
     Inr ([0, 1, 1, 2, 2], [0, 1, 3], [1, 2, 2])"
    by (simp add: Mesh_partition_def Mesh_ranklist_def make_nslist_def new_array_def stale7_def
          Let_def eval_nat_numeral upt_rec)
  from restart_partition_identical
         [of stale7 "[1, 1, 1, 1, 1]" 3 "[]" "[]" "[]" stale7 stale7 0]
  show ?thesis by (simp add: fresh)
qed

section \<open>Properties of MeshBlock::DoOneTask\<close>


lemma loop_end:
  "\<not> i < length (task b) \<Longrightarrow> DoOneTask_loop b i skip e calls = (stuck, b, e, calls)"
  by (subst DoOneTask_loop.simps) simp

lemma loop_done:
  "i < length (task b) \<Longrightarrow> taskid (task b ! i) AND task_flag b \<noteq> 0 \<Longrightarrow>
   DoOneTask_loop b i skip e calls =
     DoOneTask_loop (if skip = 0 then b\<lparr>firsttask := firsttask b + 1\<rparr> else b) (i + 1) skip e calls"
  by (subst DoOneTask_loop.simps) (simp add: Let_def)

lemma loop_blocked:
  "i < length (task b) \<Longrightarrow> taskid (task b ! i) AND task_flag b = 0 \<Longrightarrow>
   depend (task b ! i) AND task_flag b \<noteq> depend (task b ! i) \<Longrightarrow>
   DoOneTask_loop b i skip e calls = DoOneTask_loop b (i + 1) (skip + 1) e calls"
  by (subst DoOneTask_loop.simps) (simp add: Let_def)

lemma loop_fail:
  "i < length (task b) \<Longrightarrow> eligible (task b ! i) (task_flag b) \<Longrightarrow>
   TaskFunc (task b ! i) (task_flag b) e = (False, e') \<Longrightarrow>
   DoOneTask_loop b i skip e calls =
     DoOneTask_loop b (i + 1) (skip + 1) e' (calls @ [(i, task_flag b, False)])"
  by (subst DoOneTask_loop.simps) (simp add: Let_def eligible_def)

lemma loop_success:
  "i < length (task b) \<Longrightarrow> eligible (task b ! i) (task_flag b) \<Longrightarrow>
   TaskFunc (task b ! i) (task_flag b) e = (True, e') \<Longrightarrow>
   DoOneTask_loop b i skip e calls =
     (if ntodo b - 1 = 0 then complete else running,
      b\<lparr>ntodo := ntodo b - 1, task_flag := task_flag b OR taskid (task b ! i),
        firsttask := (if skip = 0 then firsttask b + 1 else firsttask b)\<rparr>,
      e', calls @ [(i, task_flag b, True)])"
  by (subst DoOneTask_loop.simps) (simp add: Let_def eligible_def)

lemma loop_cases [consumes 1, case_names complete blocked fail success]:
  assumes "i < length (task b)"
  obtains "taskid (task b ! i) AND task_flag b \<noteq> 0"
  | "taskid (task b ! i) AND task_flag b = 0"
    "depend (task b ! i) AND task_flag b \<noteq> depend (task b ! i)"
  | e' where "eligible (task b ! i) (task_flag b)"
    "TaskFunc (task b ! i) (task_flag b) e = (False, e')"
  | e' where "eligible (task b ! i) (task_flag b)"
    "TaskFunc (task b ! i) (task_flag b) e = (True, e')"
  by (cases "TaskFunc (task b ! i) (task_flag b) e") (auto simp: eligible_def)

lemma loop_post_skip:
  assumes post: "loop_post b1 (i + 1) e st b' new"
    and same: "task b1 = task b" "task_flag b1 = task_flag b" "ntodo b1 = ntodo b"
    and ne: "\<not> eligible (task b ! i) (task_flag b)"
  shows "loop_post b i e st b' new"
proof -
  let ?el = "\<lambda>k. eligible (task b ! k) (task_flag b)"
  have ge: "i + 1 \<le> k" if "i \<le> k" "?el k" for k
    using that ne by (cases "k = i") auto
  from post have p1: "task b' = task b" "st \<noteq> nothing"
    and p2: "\<forall>c\<in>set new. i + 1 \<le> fst c \<and> fst c < length (task b) \<and>
               fst (snd c) = task_flag b \<and> ?el (fst c)"
    and p3: "st = stuck \<longrightarrow>
        task_flag b' = task_flag b \<and> ntodo b' = ntodo b \<and> (\<forall>c\<in>set new. \<not> snd (snd c)) \<and>
        (\<forall>k. i + 1 \<le> k \<and> k < length (task b) \<and> ?el k \<longrightarrow> k \<in> fst ` set new)"
    and p4: "st \<noteq> stuck \<longrightarrow>
        new \<noteq> [] \<and> snd (snd (last new)) \<and> (\<forall>c\<in>set (butlast new). \<not> snd (snd c)) \<and>
        task_flag b' = task_flag b OR taskid (task b ! fst (last new)) \<and>
        ntodo b' = ntodo b - 1 \<and>
        st = (if ntodo b' = 0 then complete else running)"
    and p5: "\<forall>k. i + 1 \<le> k \<and> k < length (task b) \<and> ?el k \<and>
          (\<forall>m<k. i + 1 \<le> m \<longrightarrow> \<not> ?el m)
          \<longrightarrow> new \<noteq> [] \<and>
              hd new = (k, task_flag b, fst (TaskFunc (task b ! k) (task_flag b) e))"
    unfolding loop_post_def same by blast+
  have q2: "\<forall>c\<in>set new. i \<le> fst c \<and> fst c < length (task b) \<and>
               fst (snd c) = task_flag b \<and> ?el (fst c)"
    using p2 by auto
  have q3: "st = stuck \<longrightarrow>
        task_flag b' = task_flag b \<and> ntodo b' = ntodo b \<and> (\<forall>c\<in>set new. \<not> snd (snd c)) \<and>
        (\<forall>k. i \<le> k \<and> k < length (task b) \<and> ?el k \<longrightarrow> k \<in> fst ` set new)"
    using p3 ge by blast
  have q5: "\<forall>k. i \<le> k \<and> k < length (task b) \<and> ?el k \<and>
          (\<forall>m<k. i \<le> m \<longrightarrow> \<not> ?el m)
          \<longrightarrow> new \<noteq> [] \<and>
              hd new = (k, task_flag b, fst (TaskFunc (task b ! k) (task_flag b) e))"
  proof (intro allI impI)
    fix k assume k: "i \<le> k \<and> k < length (task b) \<and> ?el k \<and> (\<forall>m<k. i \<le> m \<longrightarrow> \<not> ?el m)"
    then have "i + 1 \<le> k" using ge by blast
    moreover have "\<forall>m<k. i + 1 \<le> m \<longrightarrow> \<not> ?el m" using k by simp
    ultimately show "new \<noteq> [] \<and>
              hd new = (k, task_flag b, fst (TaskFunc (task b ! k) (task_flag b) e))"
      using p5 k by blast
  qed
  show ?thesis unfolding loop_post_def using p1 q2 q3 p4 q5 by blast
qed

lemma loop_post_end:
  "\<not> i < length (task b) \<Longrightarrow> loop_post b i e stuck b []"
  by (simp add: loop_post_def)

lemma loop_post_success:
  assumes "i < length (task b)" "eligible (task b ! i) (task_flag b)"
    "TaskFunc (task b ! i) (task_flag b) e = (True, e')"
    "task b' = task b" "task_flag b' = task_flag b OR taskid (task b ! i)"
    "ntodo b' = ntodo b - 1"
  shows "loop_post b i e (if ntodo b - 1 = 0 then complete else running) b'
           [(i, task_flag b, True)]"
proof -
  have one: "k = i"
    if "i \<le> k" "\<forall>m<k. i \<le> m \<longrightarrow> \<not> eligible (task b ! m) (task_flag b)" for k
    using that assms(2) by (cases "i < k") auto
  have first: "\<forall>k. i \<le> k \<and> k < length (task b) \<and> eligible (task b ! k) (task_flag b) \<and>
          (\<forall>m<k. i \<le> m \<longrightarrow> \<not> eligible (task b ! m) (task_flag b))
          \<longrightarrow> [(i, task_flag b, True)] \<noteq> [] \<and>
              hd [(i, task_flag b, True)]
                = (k, task_flag b, fst (TaskFunc (task b ! k) (task_flag b) e))"
  proof (intro allI impI)
    fix k
    assume k: "i \<le> k \<and> k < length (task b) \<and> eligible (task b ! k) (task_flag b) \<and>
          (\<forall>m<k. i \<le> m \<longrightarrow> \<not> eligible (task b ! m) (task_flag b))"
    then have "k = i" using one by blast
    then show "[(i, task_flag b, True)] \<noteq> [] \<and>
              hd [(i, task_flag b, True)]
                = (k, task_flag b, fst (TaskFunc (task b ! k) (task_flag b) e))"
      using assms(3) by simp
  qed
  show ?thesis
    unfolding loop_post_def using first assms(1,2,4,5,6) by simp
qed

lemma loop_post_fail:
  assumes post: "loop_post b (i + 1) e' st b' new"
    and i: "i < length (task b)" and el: "eligible (task b ! i) (task_flag b)"
    and tf: "TaskFunc (task b ! i) (task_flag b) e = (False, e')"
  shows "loop_post b i e st b' ((i, task_flag b, False) # new)"
proof -
  let ?el = "\<lambda>k. eligible (task b ! k) (task_flag b)"
  let ?c = "(i, task_flag b, False)"
  from post have p1: "task b' = task b" "st \<noteq> nothing"
    and p2: "\<forall>c\<in>set new. i + 1 \<le> fst c \<and> fst c < length (task b) \<and>
               fst (snd c) = task_flag b \<and> ?el (fst c)"
    and p3: "st = stuck \<longrightarrow>
        task_flag b' = task_flag b \<and> ntodo b' = ntodo b \<and> (\<forall>c\<in>set new. \<not> snd (snd c)) \<and>
        (\<forall>k. i + 1 \<le> k \<and> k < length (task b) \<and> ?el k \<longrightarrow> k \<in> fst ` set new)"
    and p4: "st \<noteq> stuck \<longrightarrow>
        new \<noteq> [] \<and> snd (snd (last new)) \<and> (\<forall>c\<in>set (butlast new). \<not> snd (snd c)) \<and>
        task_flag b' = task_flag b OR taskid (task b ! fst (last new)) \<and>
        ntodo b' = ntodo b - 1 \<and>
        st = (if ntodo b' = 0 then complete else running)"
    unfolding loop_post_def by blast+
  have q2: "\<forall>c\<in>set (?c # new). i \<le> fst c \<and> fst c < length (task b) \<and>
               fst (snd c) = task_flag b \<and> ?el (fst c)"
    using p2 i el by auto
  have q3: "st = stuck \<longrightarrow>
        task_flag b' = task_flag b \<and> ntodo b' = ntodo b \<and> (\<forall>c\<in>set (?c # new). \<not> snd (snd c)) \<and>
        (\<forall>k. i \<le> k \<and> k < length (task b) \<and> ?el k \<longrightarrow> k \<in> fst ` set (?c # new))"
  proof
    assume s: "st = stuck"
    have "k \<in> fst ` set (?c # new)" if "i \<le> k \<and> k < length (task b) \<and> ?el k" for k
    proof (cases "k = i")
      case True then show ?thesis by simp
    next
      case False
      with that have "i + 1 \<le> k \<and> k < length (task b) \<and> ?el k" by simp
      with p3 s have "k \<in> fst ` set new" by blast
      then show ?thesis by auto
    qed
    with p3 s show "task_flag b' = task_flag b \<and> ntodo b' = ntodo b \<and>
        (\<forall>c\<in>set (?c # new). \<not> snd (snd c)) \<and>
        (\<forall>k. i \<le> k \<and> k < length (task b) \<and> ?el k \<longrightarrow> k \<in> fst ` set (?c # new))"
      by simp
  qed
  have q4: "st \<noteq> stuck \<longrightarrow>
        ?c # new \<noteq> [] \<and> snd (snd (last (?c # new))) \<and>
        (\<forall>c\<in>set (butlast (?c # new)). \<not> snd (snd c)) \<and>
        task_flag b' = task_flag b OR taskid (task b ! fst (last (?c # new))) \<and>
        ntodo b' = ntodo b - 1 \<and>
        st = (if ntodo b' = 0 then complete else running)"
    using p4 by auto
  have q5: "\<forall>k. i \<le> k \<and> k < length (task b) \<and> ?el k \<and>
          (\<forall>m<k. i \<le> m \<longrightarrow> \<not> ?el m)
          \<longrightarrow> ?c # new \<noteq> [] \<and>
              hd (?c # new) = (k, task_flag b, fst (TaskFunc (task b ! k) (task_flag b) e))"
  proof (intro allI impI)
    fix k assume k: "i \<le> k \<and> k < length (task b) \<and> ?el k \<and> (\<forall>m<k. i \<le> m \<longrightarrow> \<not> ?el m)"
    have "k = i" using k el by (cases "i < k") auto
    then show "?c # new \<noteq> [] \<and>
              hd (?c # new) = (k, task_flag b, fst (TaskFunc (task b ! k) (task_flag b) e))"
      using tf by simp
  qed
  show ?thesis unfolding loop_post_def using p1 q2 q3 q4 q5 by blast
qed

lemma DoOneTask_loop_post:
  "length (task b) - i = n \<Longrightarrow> DoOneTask_loop b i skip e calls = (st, b', e', calls') \<Longrightarrow>
     \<exists>new. calls' = calls @ new \<and> loop_post b i e st b' new"
proof (induction n arbitrary: b i skip e calls)
  case 0
  then have "\<not> i < length (task b)" by simp
  with 0 show ?case by (simp add: loop_end loop_post_end)
next
  case (Suc n)
  then have i: "i < length (task b)" by simp
  from i show ?case
  proof (cases rule: loop_cases [where e = e])
    case complete
    let ?b1 = "if skip = 0 then b\<lparr>firsttask := firsttask b + 1\<rparr> else b"
    have run: "DoOneTask_loop ?b1 (i + 1) skip e calls = (st, b', e', calls')"
      using Suc.prems(2) loop_done [OF i complete] by simp
    have "length (task ?b1) - (i + 1) = n" using Suc.prems(1) by auto
    from Suc.IH [OF this run] obtain new where
      new: "calls' = calls @ new" "loop_post ?b1 (i + 1) e st b' new" by blast
    have "loop_post b i e st b' new"
      by (rule loop_post_skip [OF new(2)]) (use complete in \<open>simp_all add: eligible_def\<close>)
    with new(1) show ?thesis by blast
  next
    case blocked
    have run: "DoOneTask_loop b (i + 1) (skip + 1) e calls = (st, b', e', calls')"
      using Suc.prems(2) loop_blocked [OF i blocked] by simp
    have "length (task b) - (i + 1) = n" using Suc.prems(1) by simp
    from Suc.IH [OF this run] obtain new where
      new: "calls' = calls @ new" "loop_post b (i + 1) e st b' new" by blast
    have "loop_post b i e st b' new"
      by (rule loop_post_skip [OF new(2)]) (use blocked in \<open>simp_all add: eligible_def\<close>)
    with new(1) show ?thesis by blast
  next
    case (fail e1)
    have run: "DoOneTask_loop b (i + 1) (skip + 1) e1 (calls @ [(i, task_flag b, False)])
                 = (st, b', e', calls')"
      using Suc.prems(2) loop_fail [OF i fail] by simp
    have "length (task b) - (i + 1) = n" using Suc.prems(1) by simp
    from Suc.IH [OF this run] obtain new where
      new: "calls' = (calls @ [(i, task_flag b, False)]) @ new"
           "loop_post b (i + 1) e1 st b' new" by blast
    have "loop_post b i e st b' ((i, task_flag b, False) # new)"
      by (rule loop_post_fail [OF new(2) i fail])
    with new(1) show ?thesis by simp
  next
    case (success e1)
    from Suc.prems(2) loop_success [OF i success, of skip calls]
    have st: "st = (if ntodo b - 1 = 0 then complete else running)"
      and b': "b' = b\<lparr>ntodo := ntodo b - 1, task_flag := task_flag b OR taskid (task b ! i),
                      firsttask := (if skip = 0 then firsttask b + 1 else firsttask b)\<rparr>"
      and c': "calls' = calls @ [(i, task_flag b, True)]"
      by simp_all
    have "loop_post b i e st b' [(i, task_flag b, True)]"
      unfolding st by (rule loop_post_success [OF i success]) (simp_all add: b')
    with c' show ?thesis by blast
  qed
qed

text \<open>
  C2. On a call with \<^verbatim>\<open>ntodo\<close> not 0, \<^verbatim>\<open>DoOneTask\<close> scans from the cursor and invokes only
  eligible tasks at or after it, under the completed mask of the call; if there is a
  first eligible task, it is the first one invoked, and if its function reports work
  its bits are added to the completed mask, \<^verbatim>\<open>ntodo\<close> is decremented and the call returns
  \<open>complete\<close> when \<^verbatim>\<open>ntodo\<close> has reached 0 and \<open>running\<close> otherwise. If no invoked task
  reports work, every eligible task from the cursor on has been invoked, the completed
  mask is unchanged and the call returns \<open>stuck\<close>.
\<close>

theorem DoOneTask_contract:
  assumes todo: "ntodo b \<noteq> 0" and run: "DoOneTask b e = (st, b', e', calls)"
  shows "(\<forall>c\<in>set calls. firsttask b \<le> fst c \<and> fst c < length (task b) \<and>
                          fst (snd c) = task_flag b \<and> eligible (task b ! fst c) (task_flag b)) \<and>
         (\<forall>k. first_eligible b k \<longrightarrow>
            calls \<noteq> [] \<and>
            hd calls = (k, task_flag b, fst (TaskFunc (task b ! k) (task_flag b) e)) \<and>
            (fst (TaskFunc (task b ! k) (task_flag b) e) \<longrightarrow>
               task_flag b' = task_flag b OR taskid (task b ! k) \<and>
               ntodo b' = ntodo b - 1 \<and>
               st = (if ntodo b' = 0 then complete else running))) \<and>
         ((\<forall>c\<in>set calls. \<not> snd (snd c)) \<longrightarrow>
            task_flag b' = task_flag b \<and> st = stuck \<and>
            (\<forall>k. firsttask b \<le> k \<and> k < length (task b) \<and> eligible (task b ! k) (task_flag b)
                 \<longrightarrow> k \<in> fst ` set calls))"
proof -
  from todo run have "DoOneTask_loop b (firsttask b) 0 e [] = (st, b', e', calls)"
    by (simp add: DoOneTask_def)
  from DoOneTask_loop_post [OF refl this]
  have post: "loop_post b (firsttask b) e st b' calls" by simp
  let ?el = "\<lambda>k. eligible (task b ! k) (task_flag b)"
  let ?i = "firsttask b"
  from post have p2: "\<forall>c\<in>set calls. ?i \<le> fst c \<and> fst c < length (task b) \<and>
               fst (snd c) = task_flag b \<and> ?el (fst c)"
    and p3: "st = stuck \<longrightarrow>
        task_flag b' = task_flag b \<and> ntodo b' = ntodo b \<and> (\<forall>c\<in>set calls. \<not> snd (snd c)) \<and>
        (\<forall>k. ?i \<le> k \<and> k < length (task b) \<and> ?el k \<longrightarrow> k \<in> fst ` set calls)"
    and p4: "st \<noteq> stuck \<longrightarrow>
        calls \<noteq> [] \<and> snd (snd (last calls)) \<and> (\<forall>c\<in>set (butlast calls). \<not> snd (snd c)) \<and>
        task_flag b' = task_flag b OR taskid (task b ! fst (last calls)) \<and>
        ntodo b' = ntodo b - 1 \<and>
        st = (if ntodo b' = 0 then complete else running)"
    and p5: "\<forall>k. ?i \<le> k \<and> k < length (task b) \<and> ?el k \<and>
          (\<forall>m<k. ?i \<le> m \<longrightarrow> \<not> ?el m)
          \<longrightarrow> calls \<noteq> [] \<and>
              hd calls = (k, task_flag b, fst (TaskFunc (task b ! k) (task_flag b) e))"
    unfolding loop_post_def by blast+
  have allF: "st = stuck" if "\<forall>c\<in>set calls. \<not> snd (snd c)"
  proof (rule ccontr)
    assume "st \<noteq> stuck"
    with p4 have "calls \<noteq> []" "snd (snd (last calls))" by simp_all
    with that show False using last_in_set by blast
  qed
  have first: "calls \<noteq> [] \<and>
            hd calls = (k, task_flag b, fst (TaskFunc (task b ! k) (task_flag b) e)) \<and>
            (fst (TaskFunc (task b ! k) (task_flag b) e) \<longrightarrow>
               task_flag b' = task_flag b OR taskid (task b ! k) \<and>
               ntodo b' = ntodo b - 1 \<and>
               st = (if ntodo b' = 0 then complete else running))"
    if fe: "first_eligible b k" for k
  proof -
    from fe p5 have ne: "calls \<noteq> []"
      and hd: "hd calls = (k, task_flag b, fst (TaskFunc (task b ! k) (task_flag b) e))"
      unfolding first_eligible_def by blast+
    have "task_flag b' = task_flag b OR taskid (task b ! k) \<and>
               ntodo b' = ntodo b - 1 \<and>
               st = (if ntodo b' = 0 then complete else running)"
      if work: "fst (TaskFunc (task b ! k) (task_flag b) e)"
    proof -
      from work hd have hdT: "snd (snd (hd calls))" by simp
      have "hd calls \<in> set calls" using ne by simp
      with hdT p3 have ns: "st \<noteq> stuck" by blast
      have "hd calls \<notin> set (butlast calls)" using p4 ns hdT by blast
      then have "butlast calls = []" using ne
        by (metis hd_in_set list.sel(1) butlast.simps(2) list.exhaust_sel list.set_intros(1))
      then have "last calls = hd calls" using ne
        by (metis append_butlast_last_id append_Nil list.sel(1))
      with p4 ns hd show ?thesis by simp
    qed
    with ne hd show ?thesis by blast
  qed
  from p2 first allF p3 show ?thesis by blast
qed

theorem DoOneTask_contract_witness:
  "ntodo \<lparr>task = chain3, firsttask = 0, ntodo = 3, task_flag = 0\<rparr> \<noteq> 0 \<and>
   DoOneTask \<lparr>task = chain3, firsttask = 0, ntodo = 3, task_flag = 0\<rparr> () =
     (running, \<lparr>task = chain3, firsttask = 0, ntodo = 2, task_flag = 1\<rparr>, (), [(2, 0, True)])"
  using DoOneTask_contract [of "\<lparr>task = chain3, firsttask = 0, ntodo = 3, task_flag = 0\<rparr>" "()"
           running "\<lparr>task = chain3, firsttask = 0, ntodo = 2, task_flag = 1\<rparr>" "()"
           "[(2, 0, True)]"]
  by (simp add: DoOneTask_def DoOneTask_loop.simps chain3_def always_def Let_def)

lemma mask_trans:
  fixes x y z :: "'a::len word"
  shows "x AND y = x \<Longrightarrow> y AND z = y \<Longrightarrow> x AND z = x"
  by (metis and.assoc)

lemma mask_or_left:
  fixes x t :: "'a::len word"
  shows "x AND (x OR t) = x"
  by (rule bit_word_eqI) (auto simp: bit_and_iff bit_or_iff)

lemma mask_or_right:
  fixes x t :: "'a::len word"
  shows "t AND (x OR t) = t"
  by (rule bit_word_eqI) (auto simp: bit_and_iff bit_or_iff)

lemma loop_post_task: "loop_post b i e st b' new \<Longrightarrow> task b' = task b"
  by (simp add: loop_post_def)

lemma loop_post_calls:
  "loop_post b i e st b' new \<Longrightarrow> c \<in> set new \<Longrightarrow>
     i \<le> fst c \<and> fst c < length (task b) \<and> fst (snd c) = task_flag b \<and>
     eligible (task b ! fst c) (task_flag b)"
  unfolding loop_post_def by blast

lemma loop_post_stuck:
  "loop_post b i e stuck b' new \<Longrightarrow>
     task_flag b' = task_flag b \<and> ntodo b' = ntodo b \<and> (\<forall>c\<in>set new. \<not> snd (snd c))"
  unfolding loop_post_def by blast

lemma loop_post_work:
  "loop_post b i e st b' new \<Longrightarrow> st \<noteq> stuck \<Longrightarrow>
     new \<noteq> [] \<and> snd (snd (last new)) \<and> (\<forall>c\<in>set (butlast new). \<not> snd (snd c)) \<and>
     task_flag b' = task_flag b OR taskid (task b ! fst (last new)) \<and>
     ntodo b' = ntodo b - 1 \<and> st = (if ntodo b' = 0 then complete else running)"
  unfolding loop_post_def by blast

lemma only_last_works:
  assumes "new \<noteq> []" "\<forall>c\<in>set (butlast new). \<not> snd (snd c)" "c \<in> set new" "snd (snd c)"
  shows "c = last new"
proof -
  from assms(1) have "new = butlast new @ [last new]" by simp
  then have "set new = set (butlast new @ [last new])" by simp
  then have "set new = set (butlast new) \<union> {last new}" by simp
  with assms(2,3,4) show ?thesis by blast
qed

lemma DoOneTask_nothing:
  assumes run: "DoOneTask b e = (st, b', e', calls)" and z: "ntodo b = 0"
  shows "b' = b \<and> calls = []"
  using run z by (simp add: DoOneTask_def)

lemma DoOneTask_loop_post_cursor:
  assumes run: "DoOneTask b e = (st, b', e', calls)" and z: "ntodo b \<noteq> 0"
  shows "loop_post b (firsttask b) e st b' calls"
proof -
  from run z have "DoOneTask_loop b (firsttask b) 0 e [] = (st, b', e', calls)"
    by (simp add: DoOneTask_def)
  from DoOneTask_loop_post [OF refl this] show ?thesis by simp
qed

lemma loop_post_stuck_masks:
  assumes post: "loop_post b i e stuck b' calls"
  shows "task_flag b AND task_flag b' = task_flag b"
    and "\<And>c. c \<in> set (butlast calls) \<Longrightarrow> \<not> snd (snd c)"
    and "\<And>c. c \<in> set calls \<Longrightarrow> snd (snd c) \<Longrightarrow>
              taskid (task b ! fst c) AND task_flag b' = taskid (task b ! fst c)"
proof -
  from loop_post_stuck [OF post]
  have fl: "task_flag b' = task_flag b" and nf: "\<forall>c\<in>set calls. \<not> snd (snd c)" by blast+
  show "task_flag b AND task_flag b' = task_flag b" by (simp add: fl)
  show "\<And>c. c \<in> set (butlast calls) \<Longrightarrow> \<not> snd (snd c)"
    using nf by (meson in_set_butlastD)
  show "\<And>c. c \<in> set calls \<Longrightarrow> snd (snd c) \<Longrightarrow>
              taskid (task b ! fst c) AND task_flag b' = taskid (task b ! fst c)"
    using nf by blast
qed

lemma loop_post_work_masks:
  assumes post: "loop_post b i e st b' calls" and ns: "st \<noteq> stuck"
  shows "task_flag b AND task_flag b' = task_flag b"
    and "\<And>c. c \<in> set (butlast calls) \<Longrightarrow> \<not> snd (snd c)"
    and "\<And>c. c \<in> set calls \<Longrightarrow> snd (snd c) \<Longrightarrow>
              taskid (task b ! fst c) AND task_flag b' = taskid (task b ! fst c)"
proof -
  from loop_post_work [OF post ns]
  have ne: "calls \<noteq> []" and bl: "\<forall>c\<in>set (butlast calls). \<not> snd (snd c)"
    and fl: "task_flag b' = task_flag b OR taskid (task b ! fst (last calls))" by blast+
  show "task_flag b AND task_flag b' = task_flag b"
    unfolding fl by (rule mask_or_left)
  show "\<And>c. c \<in> set (butlast calls) \<Longrightarrow> \<not> snd (snd c)"
    using bl by blast
  show "taskid (task b ! fst c) AND task_flag b' = taskid (task b ! fst c)"
    if "c \<in> set calls" "snd (snd c)" for c
  proof -
    from only_last_works [OF ne bl that] have "c = last calls" .
    then show ?thesis unfolding fl by (simp only: mask_or_right)
  qed
qed

lemma DoOneTask_summary:
  assumes run: "DoOneTask b e = (st, b', e', calls)"
  shows "task b' = task b"
    and "task_flag b AND task_flag b' = task_flag b"
    and "\<And>c. c \<in> set calls \<Longrightarrow> fst c < length (task b) \<and> fst (snd c) = task_flag b \<and>
                         eligible (task b ! fst c) (task_flag b)"
    and "\<And>c. c \<in> set (butlast calls) \<Longrightarrow> \<not> snd (snd c)"
    and "\<And>c. c \<in> set calls \<Longrightarrow> snd (snd c) \<Longrightarrow>
              taskid (task b ! fst c) AND task_flag b' = taskid (task b ! fst c)"
proof -
  consider (idle) "ntodo b = 0"
    | (halt) "ntodo b \<noteq> 0" "st = stuck"
    | (work) "ntodo b \<noteq> 0" "st \<noteq> stuck" by blast
  note cs = this
  have post: "loop_post b (firsttask b) e st b' calls" if "ntodo b \<noteq> 0"
    by (rule DoOneTask_loop_post_cursor [OF run that])
  show "task b' = task b"
  proof (cases "ntodo b = 0")
    case True
    from DoOneTask_nothing [OF run True] show ?thesis by simp
  next
    case False
    from loop_post_task [OF post [OF False]] show ?thesis .
  qed
  show "task_flag b AND task_flag b' = task_flag b"
  proof (cases rule: cs)
    case idle
    from DoOneTask_nothing [OF run idle] show ?thesis by simp
  next
    case halt
    from post [OF halt(1)] halt(2) have "loop_post b (firsttask b) e stuck b' calls" by simp
    from loop_post_stuck_masks(1) [OF this] show ?thesis .
  next
    case work
    from loop_post_work_masks(1) [OF post [OF work(1)] work(2)] show ?thesis .
  qed
  show "fst c < length (task b) \<and> fst (snd c) = task_flag b \<and>
                         eligible (task b ! fst c) (task_flag b)" if c: "c \<in> set calls" for c
  proof (cases "ntodo b = 0")
    case True
    from DoOneTask_nothing [OF run True] c show ?thesis by simp
  next
    case False
    from loop_post_calls [OF post [OF False] c] show ?thesis by blast
  qed
  show "\<not> snd (snd c)" if c: "c \<in> set (butlast calls)" for c
  proof (cases rule: cs)
    case idle
    from DoOneTask_nothing [OF run idle] c show ?thesis by simp
  next
    case halt
    from post [OF halt(1)] halt(2) have "loop_post b (firsttask b) e stuck b' calls" by simp
    from loop_post_stuck_masks(2) [OF this c] show ?thesis .
  next
    case work
    from loop_post_work_masks(2) [OF post [OF work(1)] work(2) c] show ?thesis .
  qed
  show "taskid (task b ! fst c) AND task_flag b' = taskid (task b ! fst c)"
    if c: "c \<in> set calls" "snd (snd c)" for c
  proof (cases rule: cs)
    case idle
    from DoOneTask_nothing [OF run idle] c show ?thesis by simp
  next
    case halt
    from post [OF halt(1)] halt(2) have "loop_post b (firsttask b) e stuck b' calls" by simp
    from loop_post_stuck_masks(3) [OF this c] show ?thesis .
  next
    case work
    from loop_post_work_masks(3) [OF post [OF work(1)] work(2) c] show ?thesis .
  qed
qed

lemma calls_below_mono:
  assumes "calls_below ts calls f" and sub: "f AND f' = f"
  shows "calls_below ts calls f'"
  unfolding calls_below_def
proof (intro ballI conjI impI)
  fix c assume c: "c \<in> set calls"
  from assms(1) c have a: "fst (snd c) AND f = fst (snd c)" by (simp add: calls_below_def)
  from mask_trans [OF a sub] show "fst (snd c) AND f' = fst (snd c)" .
  assume "snd (snd c)"
  with assms(1) c have b: "taskid (ts ! fst c) AND f = taskid (ts ! fst c)"
    by (simp add: calls_below_def)
  from mask_trans [OF b sub] show "taskid (ts ! fst c) AND f' = taskid (ts ! fst c)" .
qed

lemma calls_ok_append:
  assumes ok: "calls_ok ts c1" and below: "calls_below ts c1 f"
    and new: "\<And>c. c \<in> set c2 \<Longrightarrow> fst c < length ts \<and> fst (snd c) = f \<and> eligible (ts ! fst c) f"
    and quiet: "\<And>c. c \<in> set (butlast c2) \<Longrightarrow> \<not> snd (snd c)"
  shows "calls_ok ts (c1 @ c2)"
  unfolding calls_ok_def
proof (intro allI impI)
  fix q assume q: "q < length (c1 @ c2)"
  let ?cs = "c1 @ c2"
  show "fst (?cs ! q) < length ts \<and>
        eligible (ts ! fst (?cs ! q)) (fst (snd (?cs ! q))) \<and>
        (\<forall>p<q. snd (snd (?cs ! p)) \<longrightarrow>
           taskid (ts ! fst (?cs ! p)) AND fst (snd (?cs ! q)) = taskid (ts ! fst (?cs ! p)))"
  proof (cases "q < length c1")
    case True
    then have eq: "?cs ! q = c1 ! q" by (simp add: nth_append)
    have eqp: "?cs ! p = c1 ! p" if "p < q" for p using that True by (simp add: nth_append)
    from ok True have
      "fst (c1 ! q) < length ts \<and> eligible (ts ! fst (c1 ! q)) (fst (snd (c1 ! q))) \<and>
        (\<forall>p<q. snd (snd (c1 ! p)) \<longrightarrow>
           taskid (ts ! fst (c1 ! p)) AND fst (snd (c1 ! q)) = taskid (ts ! fst (c1 ! p)))"
      unfolding calls_ok_def by blast
    then show ?thesis using eq eqp by simp
  next
    case False
    define q' where "q' = q - length c1"
    from False q have q': "q' < length c2" by (simp add: q'_def)
    from False have eq: "?cs ! q = c2 ! q'" by (simp add: nth_append q'_def)
    have mem: "c2 ! q' \<in> set c2" using q' by simp
    from new [OF mem] have n: "fst (c2 ! q') < length ts" "fst (snd (c2 ! q')) = f"
      "eligible (ts ! fst (c2 ! q')) f" by simp_all
    have earlier: "taskid (ts ! fst (?cs ! p)) AND f = taskid (ts ! fst (?cs ! p))"
      if p: "p < q" and w: "snd (snd (?cs ! p))" for p
    proof (cases "p < length c1")
      case True
      then have "?cs ! p = c1 ! p" by (simp add: nth_append)
      moreover have "c1 ! p \<in> set c1" using True by simp
      ultimately show ?thesis using below w by (simp add: calls_below_def)
    next
      case pf: False
      define p' where "p' = p - length c1"
      from pf p False have p': "p' < q'" by (simp add: p'_def q'_def)
      from pf have eqp: "?cs ! p = c2 ! p'" by (simp add: nth_append p'_def)
      from p' q' have lt: "p' < length (butlast c2)" by simp
      then have "butlast c2 ! p' = c2 ! p'" by (simp add: nth_butlast)
      moreover have "butlast c2 ! p' \<in> set (butlast c2)" using lt by (rule nth_mem)
      ultimately have "c2 ! p' \<in> set (butlast c2)" by simp
      from quiet [OF this] w eqp show ?thesis by simp
    qed
    show ?thesis using n earlier by (simp add: eq)
  qed
qed

lemma DoTasks_inv:
  "DoTasks other n b e = (sts, b', e', calls) \<Longrightarrow>
     task b' = task b \<and> calls_below (task b) calls (task_flag b') \<and> calls_ok (task b) calls"
proof (induction n arbitrary: sts b' e' calls)
  case 0
  then show ?case by (simp add: calls_below_def calls_ok_def)
next
  case (Suc n)
  obtain sts1 b1 e1 calls1 where r1: "DoTasks other n b e = (sts1, b1, e1, calls1)"
    by (cases "DoTasks other n b e") auto
  obtain st b2 e2 calls2 where r2: "DoOneTask b1 (other n e1) = (st, b2, e2, calls2)"
    by (cases "DoOneTask b1 (other n e1)") auto
  from Suc.prems r1 r2 have res: "b' = b2" "calls = calls1 @ calls2" by simp_all
  from Suc.IH [OF r1] have t1: "task b1 = task b"
    and bel1: "calls_below (task b) calls1 (task_flag b1)"
    and ok1: "calls_ok (task b) calls1" by simp_all
  note sm = DoOneTask_summary [OF r2]
  have t2: "task b2 = task b" using sm(1) t1 by simp
  have new: "fst c < length (task b) \<and> fst (snd c) = task_flag b1 \<and>
             eligible (task b ! fst c) (task_flag b1)" if "c \<in> set calls2" for c
    using sm(3) [OF that] t1 by simp
  have ok: "calls_ok (task b) (calls1 @ calls2)"
    by (rule calls_ok_append [OF ok1 bel1 new sm(4)])
  have belA: "calls_below (task b) calls1 (task_flag b2)"
    by (rule calls_below_mono [OF bel1 sm(2)])
  have belB: "calls_below (task b) calls2 (task_flag b2)"
    unfolding calls_below_def
  proof (intro ballI conjI impI)
    fix c assume c: "c \<in> set calls2"
    from new [OF c] sm(2) show "fst (snd c) AND task_flag b2 = fst (snd c)" by simp
    assume "snd (snd c)"
    from sm(5) [OF c this] t1
    show "taskid (task b ! fst c) AND task_flag b2 = taskid (task b ! fst c)" by simp
  qed
  have "calls_below (task b) (calls1 @ calls2) (task_flag b2)"
    using belA belB by (auto simp: calls_below_def)
  with t2 ok res show ?case by simp
qed

text \<open>
  C3. In any sequence of \<^verbatim>\<open>DoOneTask\<close> calls on a block within a round, whatever happens
  outside the block between the calls, a task function is invoked only under a
  completed mask that contains the task's dependency mask and none of the task's own
  bits; the bits of a task that reported work are in the mask of every later
  invocation, so a task with a non-empty identifier that has reported work is not
  invoked again.
\<close>

theorem invoked_only_when_eligible:
  assumes run: "DoTasks other n b e = (sts, b', e', calls)" and q: "q < length calls"
  shows "fst (calls ! q) < length (task b) \<and>
         depend (task b ! fst (calls ! q)) AND fst (snd (calls ! q))
           = depend (task b ! fst (calls ! q)) \<and>
         taskid (task b ! fst (calls ! q)) AND fst (snd (calls ! q)) = 0 \<and>
         (\<forall>p<q. snd (snd (calls ! p)) \<longrightarrow>
            taskid (task b ! fst (calls ! p)) AND fst (snd (calls ! q))
              = taskid (task b ! fst (calls ! p)) \<and>
            (taskid (task b ! fst (calls ! p)) \<noteq> 0 \<longrightarrow> fst (calls ! q) \<noteq> fst (calls ! p)))"
proof -
  from DoTasks_inv [OF run] have "calls_ok (task b) calls" by simp
  with q have len: "fst (calls ! q) < length (task b)"
    and el: "eligible (task b ! fst (calls ! q)) (fst (snd (calls ! q)))"
    and prev: "\<forall>p<q. snd (snd (calls ! p)) \<longrightarrow>
           taskid (task b ! fst (calls ! p)) AND fst (snd (calls ! q))
             = taskid (task b ! fst (calls ! p))"
    unfolding calls_ok_def by blast+
  from el have dep: "depend (task b ! fst (calls ! q)) AND fst (snd (calls ! q))
           = depend (task b ! fst (calls ! q))"
    and own: "taskid (task b ! fst (calls ! q)) AND fst (snd (calls ! q)) = 0"
    by (simp_all add: eligible_def)
  have again: "fst (calls ! q) \<noteq> fst (calls ! p)"
    if "p < q" "snd (snd (calls ! p))" "taskid (task b ! fst (calls ! p)) \<noteq> 0" for p
  proof
    assume same: "fst (calls ! q) = fst (calls ! p)"
    from prev that(1,2) have "taskid (task b ! fst (calls ! p)) AND fst (snd (calls ! q))
             = taskid (task b ! fst (calls ! p))" by blast
    with own same that(3) show False by simp
  qed
  from len dep own prev again show ?thesis by blast
qed

theorem invoked_only_when_eligible_witness:
  "DoTasks undisturbed 3 \<lparr>task = chain3, firsttask = 0, ntodo = 3, task_flag = 0\<rparr> () =
     ([running, running, complete],
      \<lparr>task = chain3, firsttask = 1, ntodo = 0, task_flag = 7\<rparr>, (),
      [(2, 0, True), (1, 1, True), (0, 3, True)]) \<and>
   (1::nat) < length [(2::nat, 0::64 word, True), (1, 1, True), (0, 3, True)]"
proof -
  have run: "DoTasks undisturbed 3 \<lparr>task = chain3, firsttask = 0, ntodo = 3, task_flag = 0\<rparr> () =
     ([running, running, complete],
      \<lparr>task = chain3, firsttask = 1, ntodo = 0, task_flag = 7\<rparr>, (),
      [(2, 0, True), (1, 1, True), (0, 3, True)])"
    by (simp add: eval_nat_numeral DoOneTask_def DoOneTask_loop.simps chain3_def always_def
          undisturbed_def Let_def)
  have q: "(1::nat) < length [(2::nat, 0::64 word, True), (1, 1, True), (0, 3, True)]" by simp
  from invoked_only_when_eligible [OF run q] run q show ?thesis by simp
qed

lemma and_nonzero_iff:
  fixes x y :: "'a::len word"
  shows "x AND y \<noteq> 0 \<longleftrightarrow> (\<exists>m. bit x m \<and> bit y m)"
  by (auto simp: bit_eq_iff bit_and_iff dest: bit_imp_le_length)

lemma submask_iff:
  fixes x f :: "'a::len word"
  shows "x AND f = x \<longleftrightarrow> (\<forall>m. bit x m \<longrightarrow> bit f m)"
  by (auto simp: bit_eq_iff bit_and_iff dest: bit_imp_le_length)

lemma bit_all_ids:
  "bit (all_ids ts) m \<longleftrightarrow> (\<exists>j<length ts. bit (taskid (ts ! j)) m)"
proof (induction ts)
  case Nil
  show ?case by (simp add: all_ids_def)
next
  case (Cons t ts)
  have "bit (all_ids (t # ts)) m \<longleftrightarrow> bit (taskid t) m \<or> bit (all_ids ts) m"
    by (simp add: all_ids_def bit_or_iff)
  also have "\<dots> \<longleftrightarrow> bit (taskid t) m \<or> (\<exists>j<length ts. bit (taskid (ts ! j)) m)"
    using Cons.IH by simp
  also have "\<dots> \<longleftrightarrow> (\<exists>j<length (t # ts). bit (taskid ((t # ts) ! j)) m)"
  proof
    assume "bit (taskid t) m \<or> (\<exists>j<length ts. bit (taskid (ts ! j)) m)"
    then show "\<exists>j<length (t # ts). bit (taskid ((t # ts) ! j)) m"
    proof
      assume "bit (taskid t) m"
      then have "0 < length (t # ts) \<and> bit (taskid ((t # ts) ! 0)) m" by simp
      then show ?thesis by blast
    next
      assume "\<exists>j<length ts. bit (taskid (ts ! j)) m"
      then obtain j where "j < length ts" "bit (taskid (ts ! j)) m" by blast
      then have "Suc j < length (t # ts) \<and> bit (taskid ((t # ts) ! Suc j)) m" by simp
      then show ?thesis by blast
    qed
  next
    assume "\<exists>j<length (t # ts). bit (taskid ((t # ts) ! j)) m"
    then obtain j where j: "j < length (t # ts)" "bit (taskid ((t # ts) ! j)) m" by blast
    show "bit (taskid t) m \<or> (\<exists>j<length ts. bit (taskid (ts ! j)) m)"
    proof (cases j)
      case 0 with j show ?thesis by simp
    next
      case (Suc j') with j show ?thesis by auto
    qed
  qed
  finally show ?case .
qed

text \<open>In an acyclic, satisfiable graph some unfinished task has all its dependencies in
  the completed mask.\<close>

lemma exists_ready_task:
  fixes ts :: "('w::len, 'e) Task list" and flag :: "'w word"
  assumes acyc: "acyclic (dep_rel ts)" and sat: "satisfiable ts"
    and whole: "\<forall>i<length ts. taskid (ts ! i) AND flag = 0 \<or>
                              taskid (ts ! i) AND flag = taskid (ts ! i)"
    and some: "z < length ts" "taskid (ts ! z) AND flag = 0"
  shows "\<exists>k<length ts. eligible (ts ! k) flag"
proof -
  let ?U = "{i. i < length ts \<and> taskid (ts ! i) AND flag = 0}"
  have "dep_rel ts \<subseteq> {..<length ts} \<times> {..<length ts}" by (auto simp: dep_rel_def)
  then have "finite (dep_rel ts)" by (rule finite_subset) simp
  then have "wf (dep_rel ts)" using acyc by (rule finite_acyclic_wf)
  moreover have "z \<in> ?U" using some by simp
  ultimately obtain k where k: "k \<in> ?U" and min: "\<And>y. (y, k) \<in> dep_rel ts \<Longrightarrow> y \<notin> ?U"
    using wfE_min [of "dep_rel ts" z ?U] by blast
  from k have kl: "k < length ts" and kz: "taskid (ts ! k) AND flag = 0" by simp_all
  have "depend (ts ! k) AND flag = depend (ts ! k)"
    unfolding submask_iff
  proof (intro allI impI)
    fix m assume m: "bit (depend (ts ! k)) m"
    from sat kl have "depend (ts ! k) AND all_ids ts = depend (ts ! k)"
      by (simp add: satisfiable_def)
    with m have "bit (all_ids ts) m" unfolding submask_iff by blast
    then obtain j where j: "j < length ts" "bit (taskid (ts ! j)) m"
      unfolding bit_all_ids by blast
    with m have "depend (ts ! k) AND taskid (ts ! j) \<noteq> 0"
      unfolding and_nonzero_iff by blast
    with j kl have "(j, k) \<in> dep_rel ts" by (simp add: dep_rel_def)
    from min [OF this] j have "taskid (ts ! j) AND flag \<noteq> 0" by simp
    with whole j have "taskid (ts ! j) AND flag = taskid (ts ! j)" by blast
    with j show "bit flag m" unfolding submask_iff by blast
  qed
  with kz kl show ?thesis unfolding eligible_def by blast
qed

lemma loop_flag_grows:
  assumes "DoOneTask_loop b i skip e calls = (st, b', e', calls')"
  shows "task_flag b AND task_flag b' = task_flag b"
proof -
  from DoOneTask_loop_post [OF refl assms] obtain new where
    post: "loop_post b i e st b' new" by blast
  show ?thesis
  proof (cases "st = stuck")
    case True
    with post have "loop_post b i e stuck b' new" by simp
    from loop_post_stuck_masks(1) [OF this] show ?thesis .
  next
    case False
    from loop_post_work_masks(1) [OF post False] show ?thesis .
  qed
qed

lemma still_done:
  fixes x f f' :: "'a::len word"
  assumes "x AND f \<noteq> 0" "f AND f' = f"
  shows "x AND f' \<noteq> 0"
proof -
  from assms(1) obtain m where "bit x m" "bit f m" unfolding and_nonzero_iff by blast
  moreover from assms(2) have "\<forall>m. bit f m \<longrightarrow> bit f' m" unfolding submask_iff .
  ultimately show ?thesis unfolding and_nonzero_iff by blast
qed

lemma loop_cursor:
  "length (task b) - i = n \<Longrightarrow> DoOneTask_loop b i skip e calls = (st, b', e', calls') \<Longrightarrow>
   \<forall>k<length (task b). taskid (task b ! k) \<noteq> 0 \<Longrightarrow>
   i \<le> length (task b) \<Longrightarrow> (skip = 0 \<longrightarrow> firsttask b = i) \<Longrightarrow> firsttask b \<le> i \<Longrightarrow>
     firsttask b \<le> firsttask b' \<and> firsttask b' \<le> length (task b) \<and>
     (\<forall>k. firsttask b \<le> k \<and> k < firsttask b' \<longrightarrow> taskid (task b ! k) AND task_flag b' \<noteq> 0)"
proof (induction n arbitrary: b i skip e calls)
  case 0
  then have "\<not> i < length (task b)" by simp
  with "0.prems"(2) have "b' = b" by (simp add: loop_end)
  with "0.prems"(4,6) show ?case by auto
next
  case (Suc n)
  then have i: "i < length (task b)" by simp
  note run = Suc.prems(2) and nz = Suc.prems(3) and sk = Suc.prems(5) and le = Suc.prems(6)
  from i show ?case
  proof (cases rule: loop_cases [where e = e])
    case complete
    let ?b1 = "if skip = 0 then b\<lparr>firsttask := firsttask b + 1\<rparr> else b"
    have run1: "DoOneTask_loop ?b1 (i + 1) skip e calls = (st, b', e', calls')"
      using run loop_done [OF i complete] by simp
    have t1: "task ?b1 = task b" and f1: "task_flag ?b1 = task_flag b" by simp_all
    have "length (task ?b1) - (i + 1) = n" using Suc.prems(1) by auto
    from Suc.IH [OF this run1] nz i sk le
    have ih: "firsttask ?b1 \<le> firsttask b' \<and> firsttask b' \<le> length (task b) \<and>
     (\<forall>k. firsttask ?b1 \<le> k \<and> k < firsttask b' \<longrightarrow> taskid (task b ! k) AND task_flag b' \<noteq> 0)"
      by (auto split: if_splits)
    have grow: "task_flag b AND task_flag b' = task_flag b"
      using loop_flag_grows [OF run1] by (simp split: if_splits)
    have here: "taskid (task b ! i) AND task_flag b' \<noteq> 0"
      by (rule still_done [OF complete grow])
    show ?thesis
    proof (cases "skip = 0")
      case True
      with sk have fi: "firsttask b = i" by simp
      from True ih fi have a: "i + 1 \<le> firsttask b'" "firsttask b' \<le> length (task b)"
        and b: "\<forall>k. i + 1 \<le> k \<and> k < firsttask b' \<longrightarrow> taskid (task b ! k) AND task_flag b' \<noteq> 0"
        by simp_all
      have "taskid (task b ! k) AND task_flag b' \<noteq> 0" if "i \<le> k" "k < firsttask b'" for k
      proof (cases "k = i")
        case True with here show ?thesis by simp
      next
        case False
        with that have "i + 1 \<le> k \<and> k < firsttask b'" by simp
        with b show ?thesis by blast
      qed
      with a fi show ?thesis by simp
    next
      case False
      with ih show ?thesis by simp
    qed
  next
    case blocked
    have run1: "DoOneTask_loop b (i + 1) (skip + 1) e calls = (st, b', e', calls')"
      using run loop_blocked [OF i blocked] by simp
    have "length (task b) - (i + 1) = n" using Suc.prems(1) by simp
    from Suc.IH [OF this run1 nz] i le show ?thesis by simp
  next
    case (fail e1)
    have run1: "DoOneTask_loop b (i + 1) (skip + 1) e1 (calls @ [(i, task_flag b, False)])
                 = (st, b', e', calls')"
      using run loop_fail [OF i fail] by simp
    have "length (task b) - (i + 1) = n" using Suc.prems(1) by simp
    from Suc.IH [OF this run1 nz] i le show ?thesis by simp
  next
    case (success e1)
    from run loop_success [OF i success, of skip calls]
    have b': "b' = b\<lparr>ntodo := ntodo b - 1, task_flag := task_flag b OR taskid (task b ! i),
                      firsttask := (if skip = 0 then firsttask b + 1 else firsttask b)\<rparr>"
      by simp
    have now: "taskid (task b ! i) AND (task_flag b OR taskid (task b ! i)) \<noteq> 0"
      using nz i by (simp add: mask_or_right)
    show ?thesis
    proof (cases "skip = 0")
      case True
      with sk have fi: "firsttask b = i" by simp
      have "taskid (task b ! k) AND task_flag b' \<noteq> 0" if "i \<le> k" "k < i + 1" for k
      proof -
        from that have "k = i" by simp
        with now show ?thesis by (simp add: b')
      qed
      with True fi i show ?thesis by (simp add: b')
    next
      case False
      with le i show ?thesis by (auto simp add: b')
    qed
  qed
qed

lemma loop_post_first:
  "loop_post b i e st b' new \<Longrightarrow> i \<le> k \<Longrightarrow> k < length (task b) \<Longrightarrow>
   eligible (task b ! k) (task_flag b) \<Longrightarrow>
   (\<forall>m<k. i \<le> m \<longrightarrow> \<not> eligible (task b ! m) (task_flag b)) \<Longrightarrow>
   new \<noteq> [] \<and> hd new = (k, task_flag b, fst (TaskFunc (task b ! k) (task_flag b) e))"
  unfolding loop_post_def by blast

lemma and_or_disjoint:
  fixes x f t :: "'a::len word"
  assumes "x AND t = 0"
  shows "x AND (f OR t) = x AND f"
proof (rule bit_word_eqI)
  fix m assume "m < LENGTH('a)"
  from assms have "\<not> (bit x m \<and> bit t m)"
    using and_nonzero_iff [of x t] by blast
  then show "bit (x AND (f OR t)) m = bit (x AND f) m"
    by (auto simp: bit_and_iff bit_or_iff)
qed

text \<open>While a task is outstanding, a call under the conditions of a well-formed list
  completes the first eligible task.\<close>

lemma first_ready_runs:
  fixes b :: "('w::len, 'e) MeshBlock"
  assumes acyc: "acyclic (dep_rel (task b))" and sat: "satisfiable (task b)"
    and alw: "always_proceeds (task b)"
    and inv: "round_inv b" and todo: "ntodo b \<noteq> 0"
    and run: "DoOneTask b e = (st, b', e', calls)"
  shows "\<exists>k. firsttask b \<le> k \<and> k < length (task b) \<and> taskid (task b ! k) AND task_flag b = 0 \<and>
             task_flag b' = task_flag b OR taskid (task b ! k) \<and>
             ntodo b' = ntodo b - 1 \<and> st = (if ntodo b' = 0 then complete else running)"
proof -
  let ?ts = "task b" and ?f = "task_flag b"
  let ?U = "{i. i < length ?ts \<and> taskid (?ts ! i) AND ?f = 0}"
  from inv have whole: "\<forall>i<length ?ts. taskid (?ts ! i) AND ?f = 0 \<or>
                           taskid (?ts ! i) AND ?f = taskid (?ts ! i)"
    and count: "ntodo b = int (card ?U)"
    and below: "\<forall>i<firsttask b. taskid (?ts ! i) AND ?f \<noteq> 0"
    by (simp_all add: round_inv_def)
  from count todo have "card ?U \<noteq> 0" by simp
  then have "?U \<noteq> {}" by auto
  then obtain z where "z < length ?ts" "taskid (?ts ! z) AND ?f = 0" by blast
  from exists_ready_task [OF acyc sat whole this]
  obtain k1 where k1: "k1 < length ?ts" "eligible (?ts ! k1) ?f" by blast
  have after: "firsttask b \<le> k" if "eligible (?ts ! k) ?f" for k
  proof (rule ccontr)
    assume "\<not> firsttask b \<le> k"
    then have "k < firsttask b" by simp
    with below have "taskid (?ts ! k) AND ?f \<noteq> 0" by blast
    with that show False by (simp add: eligible_def)
  qed
  define P where "P k \<longleftrightarrow> k < length ?ts \<and> eligible (?ts ! k) ?f" for k
  define k where "k = (LEAST k. P k)"
  have "P k1" using k1 by (simp add: P_def)
  then have Pk: "P k" unfolding k_def by (rule LeastI)
  have least: "\<not> P m" if "m < k" for m
    using that not_less_Least unfolding k_def by blast
  from Pk have kl: "k < length ?ts" and kel: "eligible (?ts ! k) ?f" by (simp_all add: P_def)
  have kfirst: "\<forall>m<k. firsttask b \<le> m \<longrightarrow> \<not> eligible (?ts ! m) ?f"
  proof (intro allI impI)
    fix m assume "m < k"
    with least kl show "\<not> eligible (?ts ! m) ?f" by (simp add: P_def)
  qed
  have post: "loop_post b (firsttask b) e st b' calls"
    by (rule DoOneTask_loop_post_cursor [OF run todo])
  from loop_post_first [OF post after [OF kel] kl kel kfirst]
  have ne: "calls \<noteq> []"
    and hd: "hd calls = (k, ?f, fst (TaskFunc (?ts ! k) ?f e))" by simp_all
  from kel have "depend (?ts ! k) AND ?f = depend (?ts ! k)" by (simp add: eligible_def)
  with alw kl have "fst (TaskFunc (?ts ! k) ?f e)" by (simp add: always_proceeds_def)
  with hd have hdT: "snd (snd (hd calls))" and hdk: "fst (hd calls) = k" by simp_all
  have hdin: "hd calls \<in> set calls" using ne by simp
  have ns: "st \<noteq> stuck"
  proof
    assume "st = stuck"
    with post have "loop_post b (firsttask b) e stuck b' calls" by simp
    from loop_post_stuck [OF this] hdin hdT show False by blast
  qed
  from loop_post_work [OF post ns]
  have bl: "\<forall>c\<in>set (butlast calls). \<not> snd (snd c)"
    and fl: "task_flag b' = ?f OR taskid (?ts ! fst (last calls))"
    and nt: "ntodo b' = ntodo b - 1"
    and stv: "st = (if ntodo b' = 0 then complete else running)" by blast+
  from only_last_works [OF ne bl hdin hdT] hdk have "fst (last calls) = k" by simp
  with fl have "task_flag b' = ?f OR taskid (?ts ! k)" by simp
  moreover from kel have "taskid (?ts ! k) AND ?f = 0" by (simp add: eligible_def)
  ultimately show ?thesis using after [OF kel] kl nt stv by blast
qed

lemma round_inv_after:
  fixes b :: "('w::len, 'e) MeshBlock"
  assumes ids: "unique_ids (task b)" and inv: "round_inv b" and todo: "ntodo b \<noteq> 0"
    and run: "DoOneTask b e = (st, b', e', calls)"
    and kl: "k < length (task b)" and kz: "taskid (task b ! k) AND task_flag b = 0"
    and fl: "task_flag b' = task_flag b OR taskid (task b ! k)"
    and nt: "ntodo b' = ntodo b - 1"
  shows "round_inv b'" and "task b' = task b"
proof -
  let ?ts = "task b" and ?f = "task_flag b" and ?f' = "task_flag b'"
  let ?U = "{i. i < length ?ts \<and> taskid (?ts ! i) AND ?f = 0}"
  let ?U' = "{i. i < length ?ts \<and> taskid (?ts ! i) AND ?f' = 0}"
  from ids have nz: "\<forall>i<length ?ts. taskid (?ts ! i) \<noteq> 0"
    and disj: "\<And>i j. i < length ?ts \<Longrightarrow> j < length ?ts \<Longrightarrow> i \<noteq> j \<Longrightarrow>
                 taskid (?ts ! i) AND taskid (?ts ! j) = 0"
    by (simp_all add: unique_ids_def)
  from inv have whole: "\<forall>i<length ?ts. taskid (?ts ! i) AND ?f = 0 \<or>
                           taskid (?ts ! i) AND ?f = taskid (?ts ! i)"
    and count: "ntodo b = int (card ?U)"
    and cur: "firsttask b \<le> length ?ts"
    and below: "\<forall>i<firsttask b. taskid (?ts ! i) AND ?f \<noteq> 0"
    by (simp_all add: round_inv_def)
  show t: "task b' = task b" by (rule DoOneTask_summary(1) [OF run])
  have other: "taskid (?ts ! i) AND ?f' = taskid (?ts ! i) AND ?f"
    if "i < length ?ts" "i \<noteq> k" for i
    unfolding fl by (rule and_or_disjoint) (rule disj [OF that(1) kl that(2)])
  have self: "taskid (?ts ! k) AND ?f' = taskid (?ts ! k)"
    unfolding fl by (rule mask_or_right)
  have whole': "\<forall>i<length ?ts. taskid (?ts ! i) AND ?f' = 0 \<or>
                           taskid (?ts ! i) AND ?f' = taskid (?ts ! i)"
  proof (intro allI impI)
    fix i assume i: "i < length ?ts"
    show "taskid (?ts ! i) AND ?f' = 0 \<or> taskid (?ts ! i) AND ?f' = taskid (?ts ! i)"
    proof (cases "i = k")
      case True with self show ?thesis by simp
    next
      case False
      from other [OF i False] whole i show ?thesis by simp
    qed
  qed
  have "?U' = ?U - {k}"
  proof (intro set_eqI iffI)
    fix i assume "i \<in> ?U'"
    then have i: "i < length ?ts" "taskid (?ts ! i) AND ?f' = 0" by simp_all
    have "i \<noteq> k" using i(2) self nz kl by auto
    with other [OF i(1)] i show "i \<in> ?U - {k}" by simp
  next
    fix i assume "i \<in> ?U - {k}"
    then have i: "i < length ?ts" "taskid (?ts ! i) AND ?f = 0" "i \<noteq> k" by simp_all
    with other [OF i(1,3)] show "i \<in> ?U'" by simp
  qed
  moreover have "k \<in> ?U" using kl kz by simp
  moreover have "finite ?U" by simp
  ultimately have "card ?U' = card ?U - 1" and "0 < card ?U"
    by (simp_all add: card_gt_0_iff) blast
  with count nt have count': "ntodo b' = int (card ?U')" by simp
  from run todo have loop: "DoOneTask_loop b (firsttask b) 0 e [] = (st, b', e', calls)"
    by (simp add: DoOneTask_def)
  from loop_cursor [OF refl loop nz cur] have c1: "firsttask b \<le> firsttask b'"
    and c2: "firsttask b' \<le> length ?ts"
    and c3: "\<forall>i. firsttask b \<le> i \<and> i < firsttask b' \<longrightarrow> taskid (?ts ! i) AND ?f' \<noteq> 0"
    by simp_all
  have grow: "?f AND ?f' = ?f" by (rule DoOneTask_summary(2) [OF run])
  have below': "\<forall>i<firsttask b'. taskid (?ts ! i) AND ?f' \<noteq> 0"
  proof (intro allI impI)
    fix i assume i: "i < firsttask b'"
    show "taskid (?ts ! i) AND ?f' \<noteq> 0"
    proof (cases "i < firsttask b")
      case True
      with below have "taskid (?ts ! i) AND ?f \<noteq> 0" by blast
      from still_done [OF this grow] show ?thesis .
    next
      case False
      with i c3 show ?thesis by simp
    qed
  qed
  show "round_inv b'"
    unfolding round_inv_def t using whole' count' c2 below' by simp
qed

lemma round_inv_reset: "round_inv (reset_tasks b)"
  by (simp add: round_inv_def reset_tasks_def)

lemma DoTasks_progress:
  fixes b0 :: "('w::len, 'e) MeshBlock"
  assumes ids: "unique_ids (task b0)" and acyc: "acyclic (dep_rel (task b0))"
    and sat: "satisfiable (task b0)" and alw: "always_proceeds (task b0)"
    and inv0: "round_inv b0" and N: "ntodo b0 = int N"
  shows "k \<le> N \<Longrightarrow> DoTasks other k b0 e = (sts, b', e', calls) \<Longrightarrow>
     round_inv b' \<and> task b' = task b0 \<and> ntodo b' = int N - int k \<and>
     sts = (if k = N \<and> 0 < k then replicate (k - 1) running @ [complete]
            else replicate k running)"
proof (induction k arbitrary: sts b' e' calls)
  case 0
  with inv0 N show ?case by simp
next
  case (Suc k)
  obtain sts1 b1 e1 calls1 where r1: "DoTasks other k b0 e = (sts1, b1, e1, calls1)"
    by (cases "DoTasks other k b0 e") auto
  obtain st b2 e2 calls2 where r2: "DoOneTask b1 (other k e1) = (st, b2, e2, calls2)"
    by (cases "DoOneTask b1 (other k e1)") auto
  from Suc.prems(2) r1 r2 have res: "b' = b2" "sts = sts1 @ [st]" by simp_all
  from Suc.prems(1) have kN: "k \<le> N" "k \<noteq> N" by simp_all
  from Suc.IH [OF kN(1) r1] kN(2) have inv1: "round_inv b1" and t1: "task b1 = task b0"
    and n1: "ntodo b1 = int N - int k" and s1: "sts1 = replicate k running" by simp_all
  from n1 Suc.prems(1) have todo: "ntodo b1 \<noteq> 0" by simp
  from first_ready_runs [OF acyc [folded t1] sat [folded t1] alw [folded t1] inv1 todo r2]
  obtain j where j: "j < length (task b1)" "taskid (task b1 ! j) AND task_flag b1 = 0"
    "task_flag b2 = task_flag b1 OR taskid (task b1 ! j)" "ntodo b2 = ntodo b1 - 1"
    "st = (if ntodo b2 = 0 then complete else running)" by blast
  from round_inv_after [OF ids [folded t1] inv1 todo r2 j(1,2,3,4)]
  have inv2: "round_inv b2" and t2: "task b2 = task b1" by simp_all
  from j(4) n1 have n2: "ntodo b2 = int N - int (Suc k)" by simp
  have "sts1 @ [st] = (if Suc k = N \<and> 0 < Suc k then replicate (Suc k - 1) running @ [complete]
            else replicate (Suc k) running)"
  proof (cases "Suc k = N")
    case True
    with n2 have "ntodo b2 = 0" by simp
    with j(5) s1 True show ?thesis by simp
  next
    case False
    with n2 Suc.prems(1) have "ntodo b2 \<noteq> 0" by simp
    with j(5) s1 False show ?thesis by (simp add: replicate_append_same)
  qed
  with inv2 t2 t1 n2 res show ?case by simp
qed

lemma round_inv_all_done:
  fixes b :: "('w::len, 'e) MeshBlock"
  assumes inv: "round_inv b" and z: "ntodo b = 0" and i: "i < length (task b)"
  shows "taskid (task b ! i) AND task_flag b = taskid (task b ! i)"
proof -
  let ?U = "{i. i < length (task b) \<and> taskid (task b ! i) AND task_flag b = 0}"
  from inv z have "card ?U = 0" by (simp add: round_inv_def)
  moreover have "finite ?U" by simp
  ultimately have "?U = {}" by simp
  with i have "taskid (task b ! i) AND task_flag b \<noteq> 0" by blast
  moreover from inv i have "taskid (task b ! i) AND task_flag b = 0 \<or>
      taskid (task b ! i) AND task_flag b = taskid (task b ! i)" by (simp add: round_inv_def)
  ultimately show ?thesis by blast
qed

text \<open>
  C1. For a task list with unique bit identifiers whose dependency graph is acyclic,
  whose dependency bits all belong to tasks of the list, and whose task functions
  report work done whenever their dependencies are complete: from the reset state
  (mask 0, cursor 0, all \<^verbatim>\<open>ntask\<close> tasks outstanding), \<^verbatim>\<open>ntask\<close> calls of
  \<^verbatim>\<open>DoOneTask\<close> mark every task complete, whatever happens outside the block between
  the calls; every call but the last returns \<open>running\<close> and the last returns \<open>complete\<close>.
\<close>

theorem round_completes:
  fixes b :: "('w::len, 'e) MeshBlock"
  assumes ids: "unique_ids (task b)" and acyc: "acyclic (dep_rel (task b))"
    and sat: "satisfiable (task b)" and alw: "always_proceeds (task b)"
    and run: "DoTasks other (length (task b)) (reset_tasks b) e = (sts, b', e', calls)"
  shows "(\<forall>i<length (task b). taskid (task b ! i) AND task_flag b' = taskid (task b ! i)) \<and>
         ntodo b' = 0 \<and>
         sts = (if task b = [] then [] else replicate (length (task b) - 1) running @ [complete])"
proof -
  let ?r = "reset_tasks b" and ?N = "length (task b)"
  have t: "task ?r = task b" by (simp add: reset_tasks_def)
  have N: "ntodo ?r = int ?N" by (simp add: reset_tasks_def)
  from DoTasks_progress [OF ids [folded t] acyc [folded t] sat [folded t] alw [folded t]
         round_inv_reset N le_refl run]
  have inv: "round_inv b'" and t': "task b' = task b" and z: "ntodo b' = 0"
    and s: "sts = (if 0 < ?N then replicate (?N - 1) running @ [complete]
                   else replicate ?N running)"
    by (simp_all add: t)
  have "\<forall>i<?N. taskid (task b ! i) AND task_flag b' = taskid (task b ! i)"
    using round_inv_all_done [OF inv z] t' by simp
  moreover from s have "sts = (if task b = [] then []
                               else replicate (?N - 1) running @ [complete])"
    by (cases "task b") simp_all
  ultimately show ?thesis using z by blast
qed

lemma chain3_unique: "unique_ids chain3"
  by (auto simp: unique_ids_def chain3_def numeral_3_eq_3 less_Suc_eq)

lemma chain3_acyclic: "acyclic (dep_rel chain3)"
proof -
  have "dep_rel chain3 \<subseteq> less_than\<inverse>"
    by (auto simp: dep_rel_def chain3_def numeral_3_eq_3 less_Suc_eq)
  moreover have "acyclic (less_than\<inverse>)"
    by (simp add: acyclic_converse wf_acyclic)
  ultimately show ?thesis by (rule acyclic_subset [rotated])
qed

lemma chain3_satisfiable: "satisfiable chain3"
  by (auto simp: satisfiable_def all_ids_def chain3_def numeral_3_eq_3 less_Suc_eq)

lemma chain3_proceeds: "always_proceeds chain3"
  by (auto simp: always_proceeds_def chain3_def always_def numeral_3_eq_3 less_Suc_eq)

theorem round_completes_witness:
  "DoTasks undisturbed (length chain3)
     (reset_tasks \<lparr>task = chain3, firsttask = 2, ntodo = 0, task_flag = 7\<rparr>) () =
     ([running, running, complete],
      \<lparr>task = chain3, firsttask = 1, ntodo = 0, task_flag = 7\<rparr>, (),
      [(2, 0, True), (1, 1, True), (0, 3, True)])"
proof -
  let ?b = "\<lparr>task = chain3, firsttask = 2, ntodo = 0, task_flag = 7\<rparr>"
  have len: "length chain3 = 3" by (simp add: chain3_def)
  have run: "DoTasks undisturbed (length (task ?b)) (reset_tasks ?b) () =
     ([running, running, complete],
      \<lparr>task = chain3, firsttask = 1, ntodo = 0, task_flag = 7\<rparr>, (),
      [(2, 0, True), (1, 1, True), (0, 3, True)])"
    by (simp add: len reset_tasks_def eval_nat_numeral DoOneTask_def DoOneTask_loop.simps
          chain3_def always_def undisturbed_def Let_def)
  have "unique_ids (task ?b)" "acyclic (dep_rel (task ?b))" "satisfiable (task ?b)"
    "always_proceeds (task ?b)"
    by (simp_all add: chain3_unique chain3_acyclic chain3_satisfiable chain3_proceeds)
  from round_completes [OF this run] run show ?thesis by simp
qed

section \<open>Properties of Mesh::UpdateOneStep\<close>


lemma sweep_keeps_nb:
  "sweep blocks nb e = (blocks', nb', e', sts) \<Longrightarrow> complete \<notin> set sts \<Longrightarrow> nb' = nb"
proof (induction blocks arbitrary: nb e blocks' nb' e' sts)
  case Nil
  then show ?case by simp
next
  case (Cons pmb rest)
  obtain st pmb1 e1 calls where r1: "DoOneTask pmb e = (st, pmb1, e1, calls)"
    by (cases "DoOneTask pmb e") auto
  obtain rest1 nb1 e2 sts1 where
    r2: "sweep rest (if st = complete then nb - 1 else nb) e1 = (rest1, nb1, e2, sts1)"
    by (cases "sweep rest (if st = complete then nb - 1 else nb) e1") auto
  from Cons.prems(1) r1 r2 have res: "nb' = nb1" "sts = st # sts1" by simp_all
  with Cons.prems(2) have ns: "st \<noteq> complete" "complete \<notin> set sts1" by auto
  from r2 ns(1) have "sweep rest nb e1 = (rest1, nb1, e2, sts1)" by simp
  from Cons.IH [OF this ns(2)] res show ?case by simp
qed

lemma after_sweeps_shift:
  "sweep blocks nb e = (blocks', nb', e', sts) \<Longrightarrow>
   after_sweeps k (blocks', nb', e') = after_sweeps (Suc k) (blocks, nb, e)"
  by (induction k) simp_all

lemma permanently_stuck_step:
  assumes ps: "permanently_stuck (blocks, nb, e)"
    and sw: "sweep blocks nb e = (blocks', nb', e', sts)"
  shows "permanently_stuck (blocks', nb', e')" and "nb' = nb"
proof -
  show "permanently_stuck (blocks', nb', e')"
    unfolding permanently_stuck_def
  proof (intro allI)
    fix k
    from ps have "\<forall>st\<in>set (sweep_statuses (after_sweeps (Suc k) (blocks, nb, e))). st = stuck"
      unfolding permanently_stuck_def by blast
    then show "\<forall>st\<in>set (sweep_statuses (after_sweeps k (blocks', nb', e'))). st = stuck"
      by (simp only: after_sweeps_shift [OF sw])
  qed
  from ps have "\<forall>st\<in>set (sweep_statuses (after_sweeps 0 (blocks, nb, e))). st = stuck"
    unfolding permanently_stuck_def by blast
  with sw have "\<forall>st\<in>set sts. st = stuck" by (simp add: sweep_statuses_def)
  then have "complete \<notin> set sts" by auto
  from sweep_keeps_nb [OF sw this] show "nb' = nb" .
qed

lemma stuck_loop_diverges:
  fixes blocks :: "('w::len, 'e) MeshBlock list"
  assumes nb: "0 < nb" and ps: "permanently_stuck (blocks, nb, e)"
  shows "main_loop blocks nb e = None"
proof (rule ccontr)
  assume "main_loop blocks nb e \<noteq> None"
  then obtain y where y: "main_loop blocks nb e = Some y" by blast
  have step: "\<not> (0 < nb \<and> permanently_stuck (blocks, nb, e))"
    if IH: "\<And>blocks nb e y. f blocks nb e = Some y
              \<Longrightarrow> \<not> (0 < nb \<and> permanently_stuck (blocks, nb, e))"
      and eq: "(if 0 < nb
                then case sweep blocks nb e of (blocks, nb, e, sts) \<Rightarrow> f blocks nb e
                else Some (blocks, e)) = Some y"
    for f :: "('w, 'e) MeshBlock list \<Rightarrow> int \<Rightarrow> 'e \<Rightarrow> (('w, 'e) MeshBlock list \<times> 'e) option"
      and blocks nb e y
  proof
    assume a: "0 < nb \<and> permanently_stuck (blocks, nb, e)"
    obtain blocks' nb' e' sts where sw: "sweep blocks nb e = (blocks', nb', e', sts)"
      by (cases "sweep blocks nb e") auto
    from eq a sw have "f blocks' nb' e' = Some y" by simp
    from IH [OF this] have "\<not> (0 < nb' \<and> permanently_stuck (blocks', nb', e'))" .
    moreover from a have "permanently_stuck (blocks, nb, e)" by simp
    from permanently_stuck_step [OF this sw]
    have "permanently_stuck (blocks', nb', e')" "nb' = nb" by simp_all
    ultimately show False using a by simp
  qed
  have "\<not> (0 < nb \<and> permanently_stuck (blocks, nb, e))"
    by (rule main_loop.raw_induct
          [where P = "\<lambda>blocks nb e y. \<not> (0 < nb \<and> permanently_stuck (blocks, nb, e))",
           OF step y])
  with nb ps show False by simp
qed

lemma fixpoint_stuck:
  assumes fx: "sweep blocks nb e = (blocks, nb, e, sts)" and st: "\<forall>st\<in>set sts. st = stuck"
  shows "permanently_stuck (blocks, nb, e)"
proof -
  have "after_sweeps k (blocks, nb, e) = (blocks, nb, e)" for k
    by (induction k) (simp_all add: fx)
  then show ?thesis using fx st by (simp add: permanently_stuck_def sweep_statuses_def)
qed

text \<open>
  C7 (as stated). One block whose two tasks wait for each other, with \<open>nb = 1\<close>: every
  call of \<^verbatim>\<open>DoOneTask\<close> returns \<open>stuck\<close> and leaves the block as it is, \<^verbatim>\<open>nb\<close> stays 1, and
  \<^verbatim>\<open>UpdateOneStep\<close> neither returns nor reports an error.
\<close>

theorem UpdateOneStep_cycle_counterexample:
  "UpdateOneStep undisturbed undisturbed 1
     [\<lparr>task = cycle2, firsttask = 0, ntodo = 0, task_flag = 0\<rparr>] () = None"
proof -
  let ?b = "\<lparr>task = cycle2, firsttask = 0, ntodo = 2, task_flag = 0\<rparr>"
  have st: "start_round undisturbed 0 [\<lparr>task = cycle2, firsttask = 0, ntodo = 0, task_flag = 0\<rparr>] ()
              = ([?b], ())"
    by (simp add: cycle2_def undisturbed_def)
  have fx: "sweep [?b] 1 () = ([?b], 1, (), [stuck])"
    by (simp add: DoOneTask_def DoOneTask_loop.simps cycle2_def Let_def)
  have "permanently_stuck ([?b], 1, ())"
    by (rule fixpoint_stuck [OF fx]) simp
  then have "main_loop [?b] 1 () = None"
    by (intro stuck_loop_diverges) simp_all
  with st show ?thesis by (simp add: UpdateOneStep_def)
qed

text \<open>
  C7 (amended). If during a round every locally owned block returns \<open>stuck\<close> in every
  pass of the driver loop, \<^verbatim>\<open>Mesh::UpdateOneStep\<close> does not detect it: \<^verbatim>\<open>nb\<close> is never
  decremented, the loop \<^verbatim>\<open>while(nb>0)\<close> keeps iterating, and the call neither returns nor
  reports an error.
\<close>

theorem stuck_round_never_returns:
  fixes blocks :: "('w::len, 'e) MeshBlock list"
  assumes start: "start_round StartReceivingAll 0 blocks e = (blocks1, e1)"
    and nb: "0 < nb" and ps: "permanently_stuck (blocks1, nb, e1)"
  shows "UpdateOneStep StartReceivingAll ClearBoundaryAll nb blocks e = None"
proof -
  from stuck_loop_diverges [OF nb ps] have "main_loop blocks1 nb e1 = None" .
  with start show ?thesis by (simp add: UpdateOneStep_def)
qed

theorem stuck_round_never_returns_witness:
  "start_round undisturbed 0 [\<lparr>task = orphan1, firsttask = 0, ntodo = 0, task_flag = 0\<rparr>] ()
     = ([\<lparr>task = orphan1, firsttask = 0, ntodo = 1, task_flag = 0\<rparr>], ()) \<and>
   (0::int) < 1 \<and>
   sweep [\<lparr>task = orphan1, firsttask = 0, ntodo = 1, task_flag = 0\<rparr>] 1 ()
     = ([\<lparr>task = orphan1, firsttask = 0, ntodo = 1, task_flag = 0\<rparr>], 1, (), [stuck]) \<and>
   UpdateOneStep undisturbed undisturbed 1
     [\<lparr>task = orphan1, firsttask = 0, ntodo = 0, task_flag = 0\<rparr>] () = None"
proof -
  let ?b = "\<lparr>task = orphan1, firsttask = 0, ntodo = 1, task_flag = 0\<rparr>"
  have st: "start_round undisturbed 0 [\<lparr>task = orphan1, firsttask = 0, ntodo = 0, task_flag = 0\<rparr>] ()
              = ([?b], ())"
    by (simp add: orphan1_def undisturbed_def)
  have fx: "sweep [?b] 1 () = ([?b], 1, (), [stuck])"
    by (simp add: DoOneTask_def DoOneTask_loop.simps orphan1_def Let_def)
  have ps: "permanently_stuck ([?b], 1, ())"
    by (rule fixpoint_stuck [OF fx]) simp
  have nb: "(0::int) < 1" by simp
  from stuck_round_never_returns [OF st nb ps, of undisturbed] st fx show ?thesis by simp
qed

section \<open>Properties of the neighbor wiring\<close>


lemma and_then_Inr:
  "and_then r f = Inr v \<Longrightarrow> \<exists>u. r = Inr u \<and> f u = Inr v"
  by (cases r) (simp_all add: and_then_def)

lemma set_from_result:
  assumes "set_from w nbrs d nei i j = Inr nbrs'"
  shows "\<exists>r. nbrs' = nbrs((d, i, j) \<mapsto> r) \<and> fb1 r = i \<and> fb2 r = j"
proof -
  from and_then_Inr [OF assms [unfolded set_from_def]]
  obtain r where a: "and_then (read_int (w_nslist w) r) (\<lambda>s.
       Inr (SetNeighbor nbrs d r (level nei) (gid nei) (gid nei - s) i j)) = Inr nbrs'"
    by blast
  from and_then_Inr [OF a]
  obtain s where "Inr (SetNeighbor nbrs d r (level nei) (gid nei) (gid nei - s) i j)
                    = (Inr nbrs' :: mesh_error + neighbors)" by blast
  then have "nbrs' = SetNeighbor nbrs d r (level nei) (gid nei) (gid nei - s) i j" by simp
  then have "nbrs' = nbrs((d, i, j) \<mapsto>
       \<lparr>rank = r, level = level nei, gid = gid nei, lid = gid nei - s, fb1 = i, fb2 = j\<rparr>)"
    by (simp add: SetNeighbor_def)
  moreover have "fb1 \<lparr>rank = r, level = level nei, gid = gid nei, lid = gid nei - s,
                      fb1 = i, fb2 = j\<rparr> = i"
    and "fb2 \<lparr>rank = r, level = level nei, gid = gid nei, lid = gid nei - s,
                      fb1 = i, fb2 = j\<rparr> = j" by simp_all
  ultimately show ?thesis by blast
qed

lemma set_leaf_result:
  assumes "set_leaf w neibt d abc i j nbrs = Inr nbrs'"
  shows "\<exists>r. nbrs' = nbrs((d, i, j) \<mapsto> r) \<and> fb1 r = i \<and> fb2 r = j"
proof -
  obtain a b c where abc: "abc = (a, b, c)" by (cases abc) auto
  show ?thesis
  proof (cases "GetLeaf w neibt a b c")
    case None
    with assms abc show ?thesis by (simp add: set_leaf_def)
  next
    case (Some leaf)
    with assms abc have "set_from w nbrs d (GetNeighbor w leaf) i j = Inr nbrs'"
      by (simp add: set_leaf_def)
    then show ?thesis by (rule set_from_result)
  qed
qed

lemma wire_face_result:
  assumes run: "wire_face w d bnd octs nbrs = Inr nbrs'"
  shows "(bnd \<longrightarrow> (\<exists>r. nbrs' = nbrs((d, 0, 0) \<mapsto> r))) \<and>
         (\<not> bnd \<longrightarrow>
            (\<exists>neibt. FindNeighbor w d = Some neibt \<and>
               (if level (GetNeighbor w neibt) = ll w \<or> level (GetNeighbor w neibt) = ll w - 1
                then \<exists>r. nbrs' = nbrs((d, 0, 0) \<mapsto> r)
                else \<exists>r1 r2 r3 r4.
                       nbrs' = nbrs((d, 0, 0) \<mapsto> r1, (d, 0, 1) \<mapsto> r2,
                                    (d, 1, 0) \<mapsto> r3, (d, 1, 1) \<mapsto> r4) \<and>
                       fb1 r1 = 0 \<and> fb2 r1 = 0 \<and> fb1 r2 = 0 \<and> fb2 r2 = 1 \<and>
                       fb1 r3 = 1 \<and> fb2 r3 = 0 \<and> fb1 r4 = 1 \<and> fb2 r4 = 1)))"
proof (cases bnd)
  case True
  with run show ?thesis by (auto simp: wire_face_def SetNeighbor_def)
next
  case False
  show ?thesis
  proof (cases "FindNeighbor w d")
    case None
    with run False show ?thesis by (simp add: wire_face_def)
  next
    case (Some neibt)
    let ?same = "level (GetNeighbor w neibt) = ll w \<or> level (GetNeighbor w neibt) = ll w - 1"
    show ?thesis
    proof (cases ?same)
      case True
      with run False Some have "set_from w nbrs d (GetNeighbor w neibt) 0 0 = Inr nbrs'"
        by (simp add: wire_face_def Let_def)
      from set_from_result [OF this] obtain r where "nbrs' = nbrs((d, 0, 0) \<mapsto> r)" by blast
      with False Some True show ?thesis by auto
    next
      case finer: False
      obtain o1 o2 o3 o4 where octs: "octs = (o1, o2, o3, o4)" by (cases octs) auto
      from run False Some finer octs
      have seq: "and_then (set_leaf w neibt d o1 0 0 nbrs) (\<lambda>nbrs.
                   and_then (set_leaf w neibt d o2 0 1 nbrs) (\<lambda>nbrs.
                   and_then (set_leaf w neibt d o3 1 0 nbrs) (\<lambda>nbrs.
                     set_leaf w neibt d o4 1 1 nbrs))) = Inr nbrs'"
        by (simp add: wire_face_def Let_def)
      from and_then_Inr [OF seq] obtain n1 where
        s1: "set_leaf w neibt d o1 0 0 nbrs = Inr n1"
        and seq2: "and_then (set_leaf w neibt d o2 0 1 n1) (\<lambda>nbrs.
                   and_then (set_leaf w neibt d o3 1 0 nbrs) (\<lambda>nbrs.
                     set_leaf w neibt d o4 1 1 nbrs)) = Inr nbrs'" by blast
      from and_then_Inr [OF seq2] obtain n2 where
        s2: "set_leaf w neibt d o2 0 1 n1 = Inr n2"
        and seq3: "and_then (set_leaf w neibt d o3 1 0 n2) (\<lambda>nbrs.
                     set_leaf w neibt d o4 1 1 nbrs) = Inr nbrs'" by blast
      from and_then_Inr [OF seq3] obtain n3 where
        s3: "set_leaf w neibt d o3 1 0 n2 = Inr n3"
        and s4: "set_leaf w neibt d o4 1 1 n3 = Inr nbrs'" by blast
      from set_leaf_result [OF s1] obtain r1 where
        r1: "n1 = nbrs((d, 0, 0) \<mapsto> r1)" "fb1 r1 = 0" "fb2 r1 = 0" by blast
      from set_leaf_result [OF s2] obtain r2 where
        r2: "n2 = n1((d, 0, 1) \<mapsto> r2)" "fb1 r2 = 0" "fb2 r2 = 1" by blast
      from set_leaf_result [OF s3] obtain r3 where
        r3: "n3 = n2((d, 1, 0) \<mapsto> r3)" "fb1 r3 = 1" "fb2 r3 = 0" by blast
      from set_leaf_result [OF s4] obtain r4 where
        r4: "nbrs' = n3((d, 1, 1) \<mapsto> r4)" "fb1 r4 = 1" "fb2 r4 = 1" by blast
      have "nbrs' = nbrs((d, 0, 0) \<mapsto> r1, (d, 0, 1) \<mapsto> r2, (d, 1, 0) \<mapsto> r3, (d, 1, 1) \<mapsto> r4)"
        by (simp add: r1(1) r2(1) r3(1) r4(1))
      with r1(2,3) r2(2,3) r3(2,3) r4(2,3) False Some finer show ?thesis by auto
    qed
  qed
qed

lemma wire_frame:
  assumes run: "wire w d nbrs = Inr nbrs'" and other: "d' \<noteq> d"
  shows "nbrs' (d', i, j) = nbrs (d', i, j)"
proof -
  from run have "wire_face w d (boundary_face w d) (octants_of d) nbrs = Inr nbrs'"
    by (simp add: wire_def)
  note res = wire_face_result [OF this]
  consider (one) r where "nbrs' = nbrs((d, 0, 0) \<mapsto> r)"
    | (four) r1 r2 r3 r4 where
        "nbrs' = nbrs((d, 0, 0) \<mapsto> r1, (d, 0, 1) \<mapsto> r2, (d, 1, 0) \<mapsto> r3, (d, 1, 1) \<mapsto> r4)"
  proof (cases "boundary_face w d")
    case True
    with res one show ?thesis by blast
  next
    case False
    with res obtain neibt where n: "FindNeighbor w d = Some neibt"
      "if level (GetNeighbor w neibt) = ll w \<or> level (GetNeighbor w neibt) = ll w - 1
                then \<exists>r. nbrs' = nbrs((d, 0, 0) \<mapsto> r)
                else \<exists>r1 r2 r3 r4.
                       nbrs' = nbrs((d, 0, 0) \<mapsto> r1, (d, 0, 1) \<mapsto> r2,
                                    (d, 1, 0) \<mapsto> r3, (d, 1, 1) \<mapsto> r4) \<and>
                       fb1 r1 = 0 \<and> fb2 r1 = 0 \<and> fb1 r2 = 0 \<and> fb2 r2 = 1 \<and>
                       fb1 r3 = 1 \<and> fb2 r3 = 0 \<and> fb1 r4 = 1 \<and> fb2 r4 = 1" by blast
    show ?thesis
    proof (cases "level (GetNeighbor w neibt) = ll w \<or> level (GetNeighbor w neibt) = ll w - 1")
      case True
      with n(2) one show ?thesis by auto
    next
      case False
      with n(2) four show ?thesis by auto
    qed
  qed
  then show ?thesis using other by cases simp_all
qed

lemma stored_one:
  assumes "\<forall>i j. nbrs (d, i, j) = None"
  shows "stored (nbrs((d, 0, 0) \<mapsto> r)) d = [(0,0)]"
  using assms by (simp add: stored_def)

lemma stored_four:
  assumes "\<forall>i j. nbrs (d, i, j) = None"
  shows "stored (nbrs((d, 0, 0) \<mapsto> r1, (d, 0, 1) \<mapsto> r2, (d, 1, 0) \<mapsto> r3, (d, 1, 1) \<mapsto> r4)) d
           = [(0,0), (0,1), (1,0), (1,1)]"
  by (simp add: stored_def)

lemma wire_face_wired:
  assumes run: "wire w d nbrs = Inr nbrs'" and empty: "\<forall>i j. nbrs (d, i, j) = None"
  shows "face_wired w d nbrs'"
proof -
  from run have "wire_face w d (boundary_face w d) (octants_of d) nbrs = Inr nbrs'"
    by (simp add: wire_def)
  note res = wire_face_result [OF this]
  show ?thesis
  proof (cases "boundary_face w d")
    case True
    with res obtain r where "nbrs' = nbrs((d, 0, 0) \<mapsto> r)" by blast
    with stored_one [OF empty] have "stored nbrs' d = [(0,0)]" by simp
    with True show ?thesis by (simp add: face_wired_def)
  next
    case False
    with res obtain neibt where n: "FindNeighbor w d = Some neibt"
      "if level (GetNeighbor w neibt) = ll w \<or> level (GetNeighbor w neibt) = ll w - 1
                then \<exists>r. nbrs' = nbrs((d, 0, 0) \<mapsto> r)
                else \<exists>r1 r2 r3 r4.
                       nbrs' = nbrs((d, 0, 0) \<mapsto> r1, (d, 0, 1) \<mapsto> r2,
                                    (d, 1, 0) \<mapsto> r3, (d, 1, 1) \<mapsto> r4) \<and>
                       fb1 r1 = 0 \<and> fb2 r1 = 0 \<and> fb1 r2 = 0 \<and> fb2 r2 = 1 \<and>
                       fb1 r3 = 1 \<and> fb2 r3 = 0 \<and> fb1 r4 = 1 \<and> fb2 r4 = 1" by blast
    show ?thesis
    proof (cases "level (GetNeighbor w neibt) = ll w \<or> level (GetNeighbor w neibt) = ll w - 1")
      case True
      with n(2) obtain r where "nbrs' = nbrs((d, 0, 0) \<mapsto> r)" by auto
      with stored_one [OF empty] have "stored nbrs' d = [(0,0)]" by simp
      with False n(1) True show ?thesis by (simp add: face_wired_def)
    next
      case finer: False
      with n(2) obtain r1 r2 r3 r4 where
        eq: "nbrs' = nbrs((d, 0, 0) \<mapsto> r1, (d, 0, 1) \<mapsto> r2, (d, 1, 0) \<mapsto> r3, (d, 1, 1) \<mapsto> r4)"
        and fb: "fb1 r1 = 0" "fb2 r1 = 0" "fb1 r2 = 0" "fb2 r2 = 1"
                "fb1 r3 = 1" "fb2 r3 = 0" "fb1 r4 = 1" "fb2 r4 = 1" by auto
      from stored_four [OF empty] eq
      have st: "stored nbrs' d = [(0,0), (0,1), (1,0), (1,1)]" by simp
      have "\<forall>(i, j)\<in>set (stored nbrs' d). \<exists>r. nbrs' (d, i, j) = Some r \<and> fb1 r = i \<and> fb2 r = j"
        unfolding st using fb by (simp add: eq)
      with st False n(1) finer show ?thesis by (simp add: face_wired_def)
    qed
  qed
qed

lemma face_wired_cong:
  assumes "\<And>i j. n1 (d, i, j) = n2 (d, i, j)"
  shows "face_wired w d n1 = face_wired w d n2"
proof -
  have "stored n1 d = stored n2 d" by (simp add: stored_def assms)
  then show ?thesis by (simp add: face_wired_def assms)
qed

lemma wire_all_frame:
  "wire_all w ds nbrs = Inr nbrs' \<Longrightarrow> d \<notin> set ds \<Longrightarrow> nbrs' (d, i, j) = nbrs (d, i, j)"
proof (induction ds arbitrary: nbrs)
  case Nil
  then show ?case by simp
next
  case (Cons a ds)
  from Cons.prems(1) have "and_then (wire w a nbrs) (wire_all w ds) = Inr nbrs'" by simp
  from and_then_Inr [OF this] obtain n1 where
    a: "wire w a nbrs = Inr n1" and rest: "wire_all w ds n1 = Inr nbrs'" by blast
  from Cons.prems(2) have "d \<noteq> a" "d \<notin> set ds" by auto
  from Cons.IH [OF rest this(2)] wire_frame [OF a this(1)] show ?case by simp
qed

lemma wire_all_wired:
  "wire_all w ds nbrs = Inr nbrs' \<Longrightarrow> distinct ds \<Longrightarrow> d \<in> set ds \<Longrightarrow>
   \<forall>i j. nbrs (d, i, j) = None \<Longrightarrow> face_wired w d nbrs'"
proof (induction ds arbitrary: nbrs)
  case Nil
  then show ?case by simp
next
  case (Cons a ds)
  from Cons.prems(1) have "and_then (wire w a nbrs) (wire_all w ds) = Inr nbrs'" by simp
  from and_then_Inr [OF this] obtain n1 where
    a: "wire w a nbrs = Inr n1" and rest: "wire_all w ds n1 = Inr nbrs'" by blast
  show ?case
  proof (cases "d = a")
    case True
    with a Cons.prems(4) have "face_wired w d n1" by (simp add: wire_face_wired)
    moreover from Cons.prems(2) True have "d \<notin> set ds" by simp
    then have "face_wired w d nbrs' = face_wired w d n1"
      by (intro face_wired_cong wire_all_frame [OF rest])
    ultimately show ?thesis by simp
  next
    case False
    with Cons.prems(3) have "d \<in> set ds" by simp
    moreover from Cons.prems(2) have "distinct ds" by simp
    moreover from wire_frame [OF a False] Cons.prems(4)
    have "\<forall>i j. n1 (d, i, j) = None" by simp
    ultimately show ?thesis using Cons.IH [OF rest] by blast
  qed
qed

lemma wire_block_all:
  "wire_block w =
     wire_all w [inner_x1, outer_x1, inner_x2, outer_x2, inner_x3, outer_x3] Map.empty"
proof -
  have id: "and_then r Inr = r" for r :: "mesh_error + neighbors"
    by (cases r) (simp_all add: and_then_def)
  have step: "wire_all w (d # ds) = (\<lambda>n. and_then (wire w d n) (wire_all w ds))" for d ds
    by (rule ext) simp
  have nil: "wire_all w [] = Inr" by (rule ext) simp
  have last: "wire_all w [outer_x3] = (\<lambda>n. wire w outer_x3 n)"
    by (rule ext) (simp add: nil id)
  show ?thesis
    unfolding wire_block_def by (simp only: step [of _ "_ # _"] last)
qed

lemmas wiring_defs = wire_block_def wire_def wire_face_def set_leaf_def set_from_def
  read_int_def and_then_def SetNeighbor_def mesh2d_def sample_FindNeighbor_def
  sample_GetNeighbor_def sample_GetLeaf_def periodic_def shifted_def Let_def

text \<open>
  C6 (as stated). In the two-dimensional sample mesh the neighbor of block 0 across the
  outer x1 face is finer; the constructor stores four records for that face, one in
  each of the cells (0,0), (0,1), (1,0), (1,1), and not two.
\<close>

theorem finer_neighbor_2d_counterexample:
  "mesh_nx3 mesh2d = 1 \<and>
   records_of (wire_block mesh2d) outer_x1 = [(0,0), (0,1), (1,0), (1,1)]"
  by (simp add: records_of_def stored_def wiring_defs)

text \<open>
  C6 (amended). For a locally owned block whose wiring succeeds and each of its 6 face
  directions: a face that takes the physical-boundary test stores exactly one record;
  otherwise the tree neighbor exists, and when its level equals the block's level or is
  one coarser exactly one record is stored for the face, and when it is finer four
  records are stored, in two as in three dimensions, one for each child octant asked
  of the tree, each carrying its own sub-face index (0,0), (0,1), (1,0) or (1,1).
\<close>

theorem neighbor_records_per_face:
  assumes run: "wire_block w = Inr nbrs"
  shows "(boundary_face w d \<longrightarrow> stored nbrs d = [(0,0)]) \<and>
     (\<not> boundary_face w d \<longrightarrow>
        (\<exists>neibt. FindNeighbor w d = Some neibt \<and>
           (if level (GetNeighbor w neibt) = ll w \<or> level (GetNeighbor w neibt) = ll w - 1
            then stored nbrs d = [(0,0)]
            else stored nbrs d = [(0,0), (0,1), (1,0), (1,1)] \<and>
                 (\<forall>(i, j)\<in>set (stored nbrs d).
                    \<exists>r. nbrs (d, i, j) = Some r \<and> fb1 r = i \<and> fb2 r = j))))"
proof -
  let ?ds = "[inner_x1, outer_x1, inner_x2, outer_x2, inner_x3, outer_x3]"
  from run have all: "wire_all w ?ds Map.empty = Inr nbrs" by (simp add: wire_block_all)
  have "distinct ?ds" by simp
  moreover have "d \<in> set ?ds" by (cases d) simp_all
  moreover have "\<forall>i j. (Map.empty :: neighbors) (d, i, j) = None" by simp
  ultimately have "face_wired w d nbrs" by (rule wire_all_wired [OF all])
  then show ?thesis by (simp only: face_wired_def)
qed

theorem neighbor_records_per_face_witness:
  "\<exists>nbrs. wire_block mesh2d = Inr nbrs \<and>
     stored nbrs inner_x2 = [(0,0)] \<and> stored nbrs inner_x3 = [(0,0)] \<and>
     stored nbrs inner_x1 = [(0,0), (0,1), (1,0), (1,1)]"
proof -
  obtain nbrs where run: "wire_block mesh2d = Inr nbrs"
    by (simp add: wiring_defs)
  have b2: "\<not> boundary_face mesh2d inner_x2" and b3: "boundary_face mesh2d inner_x3"
    and b1: "\<not> boundary_face mesh2d inner_x1"
    by (simp_all add: mesh2d_def periodic_def)
  have f: "FindNeighbor mesh2d inner_x2 = Some 5" "FindNeighbor mesh2d inner_x1 = Some 0"
    by (simp_all add: mesh2d_def sample_FindNeighbor_def)
  have l: "level (GetNeighbor mesh2d 5) = ll mesh2d"
    "\<not> (level (GetNeighbor mesh2d 0) = ll mesh2d \<or> level (GetNeighbor mesh2d 0) = ll mesh2d - 1)"
    by (simp_all add: mesh2d_def sample_GetNeighbor_def)
  from neighbor_records_per_face [OF run, of inner_x2] b2 f l
  have "stored nbrs inner_x2 = [(0,0)]" by simp
  moreover from neighbor_records_per_face [OF run, of inner_x3] b3
  have "stored nbrs inner_x3 = [(0,0)]" by blast
  moreover from neighbor_records_per_face [OF run, of inner_x1] b1 f l
  have "stored nbrs inner_x1 = [(0,0), (0,1), (1,0), (1,1)]" by simp
  ultimately show ?thesis using run by blast
qed

end
